theory Spec2Isabelle
  imports Main
begin

section \<open>Support routines of GNU diff (src/util.c)\<close>

text \<open>
  The development embeds the routines of \<^verbatim>\<open>src/util.c\<close> that translate line numbers,
  print lines, parse the colour palette, walk the edit script and classify hunks.

  Conventions.
  \<^item> \<^verbatim>\<open>lin\<close> is a signed integer type as wide as a pointer.  The model uses \<open>int\<close>:
    C leaves signed overflow undefined, and line numbers are bounded by the size of the
    text held in memory, so the values agree on every run the C standard defines.
  \<^item> A byte is a \<open>char\<close>; text handed to the routines is a \<open>string\<close> (a list of bytes).
  \<^item> Messages go through \<^verbatim>\<open>_()\<close> (gettext); the model is the untranslated C locale.
\<close>

type_synonym lin = int

definition NL :: char where "NL = CHR 0x0A"
definition TAB :: char where "TAB = CHR 0x09"
definition CR :: char where "CR = CHR 0x0D"
definition BS :: char where "BS = CHR 0x08"
definition NUL :: char where "NUL = CHR 0x00"

subsection \<open>The output stream and the trace of a run\<close>

text \<open>
  A run is observed through its trace: \<open>Wrote s\<close> is one stdio call that put the bytes
  \<open>s\<close> on \<^verbatim>\<open>outfile\<close>, \<open>Poll\<close> is one call of \<^verbatim>\<open>process_signals\<close>, and \<open>Iter\<close> marks
  the start of one iteration of the tab-expanding loop of \<^verbatim>\<open>output_1_line\<close> (it writes
  nothing; it is recorded so that the spacing of the polls can be stated).

  Writes can fail: \<open>room\<close> is the number of bytes the stream still accepts
  (\<open>None\<close>: no limit), after which every stdio call reports a short count or an error.
\<close>

datatype event = Wrote string | Poll | Iter

datatype color_context =
  HEADER_CONTEXT | ADD_CONTEXT | DELETE_CONTEXT | RESET_CONTEXT | LINE_NUMBER_CONTEXT

datatype indicator_no =
  C_LEFT | C_RIGHT | C_END | C_RESET | C_HEADER | C_ADD | C_DELETE | C_LINE

text \<open>
  \<^verbatim>\<open>struct bin_str\<close>: a length and a pointer.  The pointer is null, or points to a
  string literal, or points into the palette buffer (at an offset).
\<close>

datatype strptr = Nullptr | Literal string | InPalette nat

record bin_str =
  len :: nat
  string :: strptr

record world =
  trace :: "event list"
  room :: "nat option"
  colors_enabled :: bool
  last_context :: color_context
  color_indicator :: "indicator_no \<Rightarrow> bin_str"
  palette_buf :: string
  color_palette :: "nat option"
  stderr :: "string list"

fun bytes_of :: "event \<Rightarrow> string" where
  "bytes_of (Wrote s) = s"
| "bytes_of Poll = []"
| "bytes_of Iter = []"

definition written :: "world \<Rightarrow> string" where
  "written w = concat (map bytes_of (trace w))"

text \<open>
  \<^verbatim>\<open>fwrite (s, 1, n, outfile)\<close>: the stream takes as many of the bytes as it has room
  for; the result is the world and the number of bytes written.
\<close>

definition fwrite :: "string \<Rightarrow> world \<Rightarrow> world \<times> nat" where
  "fwrite s w =
     (let k = (case room w of None \<Rightarrow> length s | Some r \<Rightarrow> min r (length s))
      in (w\<lparr>trace := trace w @ [Wrote (take k s)],
            room := map_option (\<lambda>r. r - k) (room w)\<rparr>, k))"

text \<open>\<^verbatim>\<open>putc\<close> and \<^verbatim>\<open>fprintf\<close>: the boolean is false when the call reports an error.\<close>

definition putc :: "char \<Rightarrow> world \<Rightarrow> world \<times> bool" where
  "putc c w = (let (w', k) = fwrite [c] w in (w', k = 1))"

definition fprintf :: "string \<Rightarrow> world \<Rightarrow> world \<times> bool" where
  "fprintf s w = (let (w', k) = fwrite s w in (w', k = length s))"

subsection \<open>Printing decimal numbers\<close>

text \<open>The conversion \<^verbatim>\<open>%d\<close> of \<^verbatim>\<open>fprintf\<close> for a \<^verbatim>\<open>lin\<close>.\<close>

definition digit :: "nat \<Rightarrow> char" where
  "digit d = char_of (48 + d)"

function dec_nat :: "nat \<Rightarrow> string" where
  "dec_nat n = (if n < 10 then [digit n] else dec_nat (n div 10) @ [digit (n mod 10)])"
  by pat_completeness auto
termination
  by (relation "measure (\<lambda>n. n)") auto

declare dec_nat.simps [simp del]

definition dec :: "int \<Rightarrow> string" where
  "dec i = (if i < 0 then CHR ''-'' # dec_nat (nat (- i)) else dec_nat (nat i))"

subsection \<open>Line numbers\<close>

text \<open>
  \<^verbatim>\<open>struct file_data\<close>, restricted to the fields \<^verbatim>\<open>util.c\<close> reads: \<open>prefix_lines\<close>, the
  number of lines of the common prefix that were not read into the line table, and
  \<open>linbuf\<close>, the line table.  \<open>linbuf f i\<close> is the text of internal line \<open>i\<close>: the bytes
  from \<^verbatim>\<open>linbuf[i]\<close> up to, not including, \<^verbatim>\<open>linbuf[i + 1]\<close>.
\<close>

record file_data =
  prefix_lines :: lin
  linbuf :: "lin \<Rightarrow> string"

definition translate_line_number :: "file_data \<Rightarrow> lin \<Rightarrow> lin" where
  "translate_line_number file i = i + prefix_lines file + 1"

text \<open>\<^verbatim>\<open>translate_range\<close> stores through two pointers; the model returns the pair.\<close>

definition translate_range :: "file_data \<Rightarrow> lin \<Rightarrow> lin \<Rightarrow> lin \<times> lin" where
  "translate_range file a b =
     (translate_line_number file (a - 1) + 1, translate_line_number file (b + 1) - 1)"

definition print_number_range :: "char \<Rightarrow> file_data \<Rightarrow> lin \<Rightarrow> lin \<Rightarrow> world \<Rightarrow> world" where
  "print_number_range sepchar file a b w =
     (let (trans_a, trans_b) = translate_range file a b
      in if trans_b > trans_a
         then fst (fprintf (dec trans_a @ [sepchar] @ dec trans_b) w)
         else fst (fprintf (dec trans_b) w))"

subsection \<open>Parsing one string of the palette: \<^verbatim>\<open>get_funky_string\<close>\<close>

text \<open>
  The palette is a C string held in \<open>palette_buf\<close>.  The model keeps the bytes before
  the terminator; a read at or after the end of the list yields the terminating NUL.
  \<^verbatim>\<open>get_funky_string\<close> receives two pointers into the same buffer: \<open>p\<close> (the source,
  read) and \<open>q\<close> (the destination, written), here offsets into the buffer.
\<close>

definition peek :: "string \<Rightarrow> nat \<Rightarrow> char" where
  "peek m i = (if i < length m then m ! i else NUL)"

datatype funky_state =
  ST_GND | ST_BACKSLASH | ST_OCTAL | ST_HEX | ST_CARET | ST_END | ST_ERROR

record funky =
  fs_state :: funky_state
  fs_p :: nat
  fs_q :: nat
  fs_num :: char
  fs_mem :: string

text \<open>
  \<^verbatim>\<open>*(q++) = c\<close>.  A write at or after the end of the list would fall outside the
  string; the list is then left as it is.  No such write occurs when the write pointer
  starts at or before the read pointer, since every write is to a position that has
  been read.
\<close>

definition put_q :: "char \<Rightarrow> funky \<Rightarrow> funky" where
  "put_q c s = s\<lparr>fs_mem := (fs_mem s)[fs_q s := c], fs_q := fs_q s + 1\<rparr>"

text \<open>\<^verbatim>\<open>++p\<close>\<close>

definition inc_p :: "funky \<Rightarrow> funky" where
  "inc_p s = s\<lparr>fs_p := fs_p s + 1\<rparr>"

definition is_octal :: "char \<Rightarrow> bool" where
  "is_octal c = ((48::nat) \<le> of_char c \<and> (of_char c :: nat) \<le> 55)"

definition is_decimal :: "char \<Rightarrow> bool" where
  "is_decimal c = ((48::nat) \<le> of_char c \<and> (of_char c :: nat) \<le> 57)"

definition is_hex_lower :: "char \<Rightarrow> bool" where
  "is_hex_lower c = ((97::nat) \<le> of_char c \<and> (of_char c :: nat) \<le> 102)"

definition is_hex_upper :: "char \<Rightarrow> bool" where
  "is_hex_upper c = ((65::nat) \<le> of_char c \<and> (of_char c :: nat) \<le> 70)"

text \<open>
  \<^verbatim>\<open>num = (num << k) + d\<close>, stored back into a \<^verbatim>\<open>char\<close>: the value modulo 256.
\<close>

definition shift_add :: "nat \<Rightarrow> char \<Rightarrow> nat \<Rightarrow> char" where
  "shift_add k n d = char_of ((of_char n :: nat) * 2 ^ k + d)"

text \<open>Ground state: \<^verbatim>\<open>case ST_GND\<close>, on the byte \<open>c = *p\<close>.\<close>

definition gnd_step :: "bool \<Rightarrow> char \<Rightarrow> funky \<Rightarrow> funky" where
  "gnd_step equals_end c s =
     (if c = CHR '':'' \<or> c = NUL then s\<lparr>fs_state := ST_END\<rparr>
      else if c = CHR 0x5C then inc_p (s\<lparr>fs_state := ST_BACKSLASH\<rparr>)
      else if c = CHR ''^'' then inc_p (s\<lparr>fs_state := ST_CARET\<rparr>)
      else if c = CHR ''='' \<and> equals_end then s\<lparr>fs_state := ST_END\<rparr>
      else inc_p (put_q c s))"

text \<open>
  \<^verbatim>\<open>case ST_BACKSLASH\<close>: the switch sets \<open>num\<close> or leaves the state; then, if the state
  is still \<^verbatim>\<open>ST_BACKSLASH\<close>, \<open>num\<close> is stored and the state is ground; then \<^verbatim>\<open>++p\<close>.
\<close>

definition backslash_switch :: "char \<Rightarrow> funky \<Rightarrow> funky" where
  "backslash_switch c s =
     (if is_octal c then s\<lparr>fs_state := ST_OCTAL, fs_num := char_of ((of_char c :: nat) - 48)\<rparr>
      else if c = CHR ''x'' \<or> c = CHR ''X'' then s\<lparr>fs_state := ST_HEX, fs_num := NUL\<rparr>
      else if c = CHR ''a'' then s\<lparr>fs_num := CHR 0x07\<rparr>
      else if c = CHR ''b'' then s\<lparr>fs_num := CHR 0x08\<rparr>
      else if c = CHR ''e'' then s\<lparr>fs_num := CHR 0x1B\<rparr>
      else if c = CHR ''f'' then s\<lparr>fs_num := CHR 0x0C\<rparr>
      else if c = CHR ''n'' then s\<lparr>fs_num := CHR 0x0A\<rparr>
      else if c = CHR ''r'' then s\<lparr>fs_num := CHR 0x0D\<rparr>
      else if c = CHR ''t'' then s\<lparr>fs_num := CHR 0x09\<rparr>
      else if c = CHR ''v'' then s\<lparr>fs_num := CHR 0x0B\<rparr>
      else if c = CHR ''?'' then s\<lparr>fs_num := CHR 0x7F\<rparr>
      else if c = CHR ''_'' then s\<lparr>fs_num := CHR '' ''\<rparr>
      else if c = NUL then s\<lparr>fs_state := ST_ERROR\<rparr>
      else s\<lparr>fs_num := c\<rparr>)"

definition backslash_step :: "char \<Rightarrow> funky \<Rightarrow> funky" where
  "backslash_step c s =
     (let s1 = backslash_switch c s;
          s2 = (if fs_state s1 = ST_BACKSLASH
                then (put_q (fs_num s1) s1)\<lparr>fs_state := ST_GND\<rparr> else s1)
      in inc_p s2)"

definition octal_step :: "char \<Rightarrow> funky \<Rightarrow> funky" where
  "octal_step c s =
     (if \<not> is_octal c then (put_q (fs_num s) s)\<lparr>fs_state := ST_GND\<rparr>
      else inc_p (s\<lparr>fs_num := shift_add 3 (fs_num s) ((of_char c :: nat) - 48)\<rparr>))"

definition hex_step :: "char \<Rightarrow> funky \<Rightarrow> funky" where
  "hex_step c s =
     (if is_decimal c
      then inc_p (s\<lparr>fs_num := shift_add 4 (fs_num s) ((of_char c :: nat) - 48)\<rparr>)
      else if is_hex_lower c
      then inc_p (s\<lparr>fs_num := shift_add 4 (fs_num s) ((of_char c :: nat) - 97 + 10)\<rparr>)
      else if is_hex_upper c
      then inc_p (s\<lparr>fs_num := shift_add 4 (fs_num s) ((of_char c :: nat) - 65 + 10)\<rparr>)
      else (put_q (fs_num s) s)\<lparr>fs_state := ST_GND\<rparr>)"

text \<open>
  \<^verbatim>\<open>case ST_CARET\<close>.  For \<^verbatim>\<open>^?\<close> the code stores 127 and does not advance \<open>p\<close>, so
  the question mark is read again in the ground state.
\<close>

definition caret_step :: "char \<Rightarrow> funky \<Rightarrow> funky" where
  "caret_step c s =
     (let s1 = s\<lparr>fs_state := ST_GND\<rparr>
      in if (64::nat) \<le> of_char c \<and> (of_char c :: nat) \<le> 126
         then inc_p (put_q (char_of ((of_char c :: nat) mod 32)) s1)
         else if c = CHR ''?'' then put_q (CHR 0x7F) s1
         else s1\<lparr>fs_state := ST_ERROR\<rparr>)"

text \<open>One iteration of \<^verbatim>\<open>while (state < ST_END)\<close>; a finished state stays as it is.\<close>

definition gfs_step :: "bool \<Rightarrow> funky \<Rightarrow> funky" where
  "gfs_step equals_end s =
     (let c = peek (fs_mem s) (fs_p s)
      in case fs_state s of
           ST_GND \<Rightarrow> gnd_step equals_end c s
         | ST_BACKSLASH \<Rightarrow> backslash_step c s
         | ST_OCTAL \<Rightarrow> octal_step c s
         | ST_HEX \<Rightarrow> hex_step c s
         | ST_CARET \<Rightarrow> caret_step c s
         | ST_END \<Rightarrow> s
         | ST_ERROR \<Rightarrow> s)"

definition finished :: "funky_state \<Rightarrow> bool" where
  "finished st = (st = ST_END \<or> st = ST_ERROR)"

fun rank :: "funky_state \<Rightarrow> nat" where
  "rank ST_END = 0"
| "rank ST_ERROR = 0"
| "rank ST_GND = 1"
| "rank ST_BACKSLASH = 2"
| "rank ST_OCTAL = 2"
| "rank ST_HEX = 2"
| "rank ST_CARET = 2"

definition gfs_measure :: "funky \<Rightarrow> nat" where
  "gfs_measure s = 3 * (length (fs_mem s) + 1 - fs_p s) + rank (fs_state s)"

lemma gnd_step_decreases:
  "fs_state s = ST_GND \<Longrightarrow> c = peek (fs_mem s) (fs_p s) \<Longrightarrow>
   gfs_measure (gnd_step equals_end c s) < gfs_measure s"
  by (cases "fs_p s < length (fs_mem s)")
     (auto simp: gnd_step_def gfs_measure_def inc_p_def put_q_def peek_def)

lemma backslash_step_decreases:
  "fs_state s = ST_BACKSLASH \<Longrightarrow> c = peek (fs_mem s) (fs_p s) \<Longrightarrow>
   gfs_measure (backslash_step c s) < gfs_measure s"
  by (cases "fs_p s < length (fs_mem s)")
     (auto simp: backslash_step_def backslash_switch_def gfs_measure_def inc_p_def put_q_def
        peek_def is_octal_def NUL_def Let_def)

lemma octal_step_decreases:
  "fs_state s = ST_OCTAL \<Longrightarrow> c = peek (fs_mem s) (fs_p s) \<Longrightarrow>
   gfs_measure (octal_step c s) < gfs_measure s"
  by (cases "fs_p s < length (fs_mem s)")
     (auto simp: octal_step_def gfs_measure_def inc_p_def put_q_def peek_def is_octal_def NUL_def)

lemma hex_step_decreases:
  "fs_state s = ST_HEX \<Longrightarrow> c = peek (fs_mem s) (fs_p s) \<Longrightarrow>
   gfs_measure (hex_step c s) < gfs_measure s"
  by (cases "fs_p s < length (fs_mem s)")
     (auto simp: hex_step_def gfs_measure_def inc_p_def put_q_def peek_def is_decimal_def
        is_hex_lower_def is_hex_upper_def NUL_def)

lemma caret_step_decreases:
  "fs_state s = ST_CARET \<Longrightarrow> c = peek (fs_mem s) (fs_p s) \<Longrightarrow>
   gfs_measure (caret_step c s) < gfs_measure s"
  by (cases "fs_p s < length (fs_mem s)")
     (auto simp: caret_step_def gfs_measure_def inc_p_def put_q_def peek_def NUL_def Let_def)

lemma gfs_step_decreases:
  "\<not> finished (fs_state s) \<Longrightarrow> gfs_measure (gfs_step equals_end s) < gfs_measure s"
  by (cases "fs_state s")
     (simp_all add: gfs_step_def finished_def gnd_step_decreases backslash_step_decreases
        octal_step_decreases hex_step_decreases caret_step_decreases)

function gfs_loop :: "bool \<Rightarrow> funky \<Rightarrow> funky" where
  "gfs_loop equals_end s =
     (if finished (fs_state s) then s else gfs_loop equals_end (gfs_step equals_end s))"
  by pat_completeness auto
termination
  by (relation "measure (\<lambda>(e, s). gfs_measure s)") (auto simp: gfs_step_decreases)

declare gfs_loop.simps [simp del]

text \<open>
  \<^verbatim>\<open>get_funky_string (&dest, &src, equals_end)\<close> on the buffer \<open>m\<close>: the result is the
  buffer, the new \<^verbatim>\<open>*dest\<close>, the new \<^verbatim>\<open>*src\<close> and the return value.
\<close>

definition get_funky_string ::
  "string \<Rightarrow> nat \<Rightarrow> nat \<Rightarrow> bool \<Rightarrow> string \<times> nat \<times> nat \<times> bool" where
  "get_funky_string m dest src equals_end =
     (let s = gfs_loop equals_end
                \<lparr>fs_state = ST_GND, fs_p = src, fs_q = dest, fs_num = NUL, fs_mem = m\<rparr>
      in (fs_mem s, fs_q s, fs_p s, fs_state s \<noteq> ST_ERROR))"

text \<open>Facts about one iteration, used for the termination of the palette parser.\<close>

lemma gfs_step_length: "length (fs_mem (gfs_step equals_end s)) = length (fs_mem s)"
  by (cases "fs_state s")
     (auto simp: gfs_step_def gnd_step_def backslash_step_def backslash_switch_def
        octal_step_def hex_step_def caret_step_def inc_p_def put_q_def Let_def)

lemma gfs_step_p_mono: "fs_p s \<le> fs_p (gfs_step equals_end s)"
  by (cases "fs_state s")
     (auto simp: gfs_step_def gnd_step_def backslash_step_def backslash_switch_def
        octal_step_def hex_step_def caret_step_def inc_p_def put_q_def Let_def)

lemma gfs_loop_length: "length (fs_mem (gfs_loop equals_end s)) = length (fs_mem s)"
proof (induction equals_end s rule: gfs_loop.induct)
  case (1 equals_end s)
  show ?case
  proof (cases "finished (fs_state s)")
    case True
    then show ?thesis by (simp add: gfs_loop.simps [of equals_end s])
  next
    case False
    then show ?thesis
      using "1.IH" by (simp add: gfs_loop.simps [of equals_end s] gfs_step_length)
  qed
qed

lemma gfs_loop_p_mono: "fs_p s \<le> fs_p (gfs_loop equals_end s)"
proof (induction equals_end s rule: gfs_loop.induct)
  case (1 equals_end s)
  show ?case
  proof (cases "finished (fs_state s)")
    case True
    then show ?thesis by (simp add: gfs_loop.simps [of equals_end s])
  next
    case False
    have "fs_p s \<le> fs_p (gfs_step equals_end s)"
      by (rule gfs_step_p_mono)
    also have "\<dots> \<le> fs_p (gfs_loop equals_end (gfs_step equals_end s))"
      using False by (rule "1.IH")
    finally show ?thesis
      using False by (simp add: gfs_loop.simps [of equals_end s])
  qed
qed

subsection \<open>Parsing the palette: \<^verbatim>\<open>parse_diff_color\<close>\<close>

text \<open>
  \<^verbatim>\<open>error (status, errnum, format, ...)\<close> prints a message on standard error and, when
  \<open>status\<close> is not zero, exits with that status (\<open>Inl\<close>); otherwise it returns.
\<close>

definition error :: "int \<Rightarrow> string \<Rightarrow> world \<Rightarrow> int + world" where
  "error status message w =
     (let w' = w\<lparr>stderr := stderr w @ [message]\<rparr>
      in if status \<noteq> 0 then Inl status else Inr w')"


datatype parse_state = PS_START | PS_2 | PS_3 | PS_4 | PS_DONE | PS_FAIL

definition indicator_name :: "(string \<times> indicator_no) list" where
  "indicator_name =
     [(''lc'', C_LEFT), (''rc'', C_RIGHT), (''ec'', C_END), (''rs'', C_RESET),
      (''hd'', C_HEADER), (''ad'', C_ADD), (''de'', C_DELETE), (''ln'', C_LINE)]"

text \<open>
  The variables of the loop: the state, the read pointer \<open>p\<close>, the write pointer \<open>buf\<close>,
  the two bytes of \<open>label\<close>, and the world (the buffer, the indicator table, stderr).
\<close>

record pdc =
  ps_state :: parse_state
  ps_p :: nat
  ps_buf :: nat
  ps_label :: string
  ps_world :: world

text \<open>\<^verbatim>\<open>get_funky_string (&buf, &p, equals_end)\<close> on the palette buffer.\<close>

definition pdc_funky :: "bool \<Rightarrow> pdc \<Rightarrow> pdc \<times> bool" where
  "pdc_funky equals_end s =
     (let (m, dest, src, ok) =
            get_funky_string (palette_buf (ps_world s)) (ps_buf s) (ps_p s) equals_end
      in (s\<lparr>ps_buf := dest, ps_p := src, ps_world := (ps_world s)\<lparr>palette_buf := m\<rparr>\<rparr>, ok))"

definition set_indicator :: "indicator_no \<Rightarrow> bin_str \<Rightarrow> world \<Rightarrow> world" where
  "set_indicator ind_no b w = w\<lparr>color_indicator := (color_indicator w)(ind_no := b)\<rparr>"

definition ps_start_step :: "char \<Rightarrow> pdc \<Rightarrow> pdc" where
  "ps_start_step c s =
     (if c = CHR '':'' then s\<lparr>ps_p := ps_p s + 1\<rparr>
      else if c = CHR ''*''
      then (let (s', ok) = pdc_funky True (s\<lparr>ps_p := ps_p s + 1\<rparr>)
            in s'\<lparr>ps_state := (if ok then PS_4 else PS_FAIL)\<rparr>)
      else if c = NUL then s\<lparr>ps_state := PS_DONE\<rparr>
      else s\<lparr>ps_label := (ps_label s)[0 := c], ps_p := ps_p s + 1, ps_state := PS_2\<rparr>)"

definition ps_2_step :: "char \<Rightarrow> pdc \<Rightarrow> pdc" where
  "ps_2_step c s =
     (if c \<noteq> NUL
      then s\<lparr>ps_label := (ps_label s)[1 := c], ps_p := ps_p s + 1, ps_state := PS_3\<rparr>
      else s\<lparr>ps_state := PS_FAIL\<rparr>)"

definition ps_3_step :: "char \<Rightarrow> pdc \<Rightarrow> int + pdc" where
  "ps_3_step c s =
     (let s1 = s\<lparr>ps_state := PS_FAIL, ps_p := ps_p s + 1\<rparr>
      in if c = CHR ''=''
         then (let s2 =
                     (case map_of indicator_name (ps_label s1) of
                        None \<Rightarrow> s1
                      | Some ind_no \<Rightarrow>
                          (let str = ps_buf s1;
                               (s', ok) = pdc_funky False s1
                           in if ok
                              then s'\<lparr>ps_world :=
                                        set_indicator ind_no
                                          \<lparr>len = ps_buf s' - str, string = InPalette str\<rparr>
                                          (ps_world s'),
                                      ps_state := PS_START\<rparr>
                              else s'))
               in if ps_state s2 = PS_FAIL
                  then (case error 0 (''unrecognized prefix: '' @ ps_label s2) (ps_world s2) of
                          Inl e \<Rightarrow> Inl e
                        | Inr w \<Rightarrow> Inr (s2\<lparr>ps_world := w\<rparr>))
                  else Inr s2)
         else Inr s1)"

definition ps_4_step :: "char \<Rightarrow> pdc \<Rightarrow> pdc" where
  "ps_4_step c s =
     (let s1 = s\<lparr>ps_p := ps_p s + 1\<rparr>
      in if c = CHR ''=''
         then (let (s', ok) = pdc_funky False s1
               in s'\<lparr>ps_state := (if ok then PS_START else PS_FAIL)\<rparr>)
         else s1\<lparr>ps_state := PS_FAIL\<rparr>)"

text \<open>One iteration of \<^verbatim>\<open>while (true)\<close>, on the byte \<open>c = *p\<close>.\<close>

definition pdc_step :: "pdc \<Rightarrow> int + pdc" where
  "pdc_step s =
     (let c = peek (palette_buf (ps_world s)) (ps_p s)
      in case ps_state s of
           PS_START \<Rightarrow> Inr (ps_start_step c s)
         | PS_2 \<Rightarrow> Inr (ps_2_step c s)
         | PS_3 \<Rightarrow> ps_3_step c s
         | PS_4 \<Rightarrow> Inr (ps_4_step c s)
         | PS_DONE \<Rightarrow> Inr s
         | PS_FAIL \<Rightarrow> Inr s)"

definition at_done :: "parse_state \<Rightarrow> bool" where
  "at_done st = (st = PS_DONE \<or> st = PS_FAIL)"

definition pdc_measure :: "pdc \<Rightarrow> nat" where
  "pdc_measure s =
     2 * (length (palette_buf (ps_world s)) + 1 - ps_p s) + (if at_done (ps_state s) then 0 else 1)"

lemma pdc_funky_length:
  "length (palette_buf (ps_world (fst (pdc_funky equals_end s)))) =
   length (palette_buf (ps_world s))"
  by (simp add: pdc_funky_def get_funky_string_def Let_def gfs_loop_length)

lemma pdc_funky_p_mono: "ps_p s \<le> ps_p (fst (pdc_funky equals_end s))"
  using gfs_loop_p_mono
    [of "\<lparr>fs_state = ST_GND, fs_p = ps_p s, fs_q = ps_buf s, fs_num = NUL,
          fs_mem = palette_buf (ps_world s)\<rparr>" equals_end]
  by (simp add: pdc_funky_def get_funky_string_def Let_def)

lemma ps_start_step_decreases:
  "ps_state s = PS_START \<Longrightarrow> c = peek (palette_buf (ps_world s)) (ps_p s) \<Longrightarrow>
   pdc_measure (ps_start_step c s) < pdc_measure s"
  using pdc_funky_length [of True "s\<lparr>ps_p := ps_p s + 1\<rparr>"]
    pdc_funky_p_mono [of "s\<lparr>ps_p := ps_p s + 1\<rparr>" True]
  by (cases "ps_p s < length (palette_buf (ps_world s))")
     (auto simp: ps_start_step_def pdc_measure_def at_done_def peek_def NUL_def
        split: prod.splits)

lemma ps_2_step_decreases:
  "ps_state s = PS_2 \<Longrightarrow> c = peek (palette_buf (ps_world s)) (ps_p s) \<Longrightarrow>
   pdc_measure (ps_2_step c s) < pdc_measure s"
  by (cases "ps_p s < length (palette_buf (ps_world s))")
     (auto simp: ps_2_step_def pdc_measure_def at_done_def peek_def)

lemma ps_3_step_decreases:
  "ps_state s = PS_3 \<Longrightarrow> c = peek (palette_buf (ps_world s)) (ps_p s) \<Longrightarrow>
   ps_3_step c s = Inr s' \<Longrightarrow> pdc_measure s' < pdc_measure s"
  using pdc_funky_length [of False "s\<lparr>ps_state := PS_FAIL, ps_p := ps_p s + 1\<rparr>"]
    pdc_funky_p_mono [of "s\<lparr>ps_state := PS_FAIL, ps_p := ps_p s + 1\<rparr>" False]
  by (cases "ps_p s < length (palette_buf (ps_world s))")
     (auto simp: ps_3_step_def pdc_measure_def at_done_def peek_def NUL_def Let_def
        error_def set_indicator_def
        split: prod.splits option.splits if_splits)

lemma ps_4_step_decreases:
  "ps_state s = PS_4 \<Longrightarrow> c = peek (palette_buf (ps_world s)) (ps_p s) \<Longrightarrow>
   pdc_measure (ps_4_step c s) < pdc_measure s"
  using pdc_funky_length [of False "s\<lparr>ps_p := ps_p s + 1\<rparr>"]
    pdc_funky_p_mono [of "s\<lparr>ps_p := ps_p s + 1\<rparr>" False]
  by (cases "ps_p s < length (palette_buf (ps_world s))")
     (auto simp: ps_4_step_def pdc_measure_def at_done_def peek_def NUL_def Let_def
        split: prod.splits)

lemma pdc_step_decreases:
  "\<not> at_done (ps_state s) \<Longrightarrow> pdc_step s = Inr s' \<Longrightarrow> pdc_measure s' < pdc_measure s"
  by (cases "ps_state s")
     (auto simp: pdc_step_def at_done_def ps_start_step_decreases ps_2_step_decreases
        ps_3_step_decreases ps_4_step_decreases)

function pdc_loop :: "pdc \<Rightarrow> int + pdc" where
  "pdc_loop s =
     (if at_done (ps_state s) then Inr s
      else case pdc_step s of Inl e \<Rightarrow> Inl e | Inr s' \<Rightarrow> pdc_loop s')"
  by pat_completeness auto
termination
  by (relation "measure pdc_measure") (auto simp: pdc_step_decreases)

declare pdc_loop.simps [simp del]

text \<open>
  \<^verbatim>\<open>parse_diff_color\<close>: nothing to do without a palette or with an empty one;
  otherwise the palette is processed into itself, and a failure is reported with
  \<^verbatim>\<open>error (0, 0, ...)\<close> and turns the colours off.
\<close>

definition pdc_start :: "nat \<Rightarrow> world \<Rightarrow> pdc" where
  "pdc_start p0 w =
     \<lparr>ps_state = PS_START, ps_p = p0, ps_buf = p0, ps_label = ''??'',
      ps_world = w\<lparr>color_palette := None\<rparr>\<rparr>"


subsection \<open>Initial values of the static data\<close>

text \<open>The initial table \<^verbatim>\<open>color_indicator[]\<close> (\<^verbatim>\<open>LEN_STR_PAIR\<close> of each literal).\<close>

definition LEN_STR_PAIR :: "string \<Rightarrow> bin_str" where
  "LEN_STR_PAIR s = \<lparr>len = length s, string = Literal s\<rparr>"

fun color_indicator_init :: "indicator_no \<Rightarrow> bin_str" where
  "color_indicator_init C_LEFT = LEN_STR_PAIR [CHR 0x1B, CHR ''['']"
| "color_indicator_init C_RIGHT = LEN_STR_PAIR ''m''"
| "color_indicator_init C_END = \<lparr>len = 0, string = Nullptr\<rparr>"
| "color_indicator_init C_RESET = LEN_STR_PAIR ''0''"
| "color_indicator_init C_HEADER = LEN_STR_PAIR ''1''"
| "color_indicator_init C_ADD = LEN_STR_PAIR ''32''"
| "color_indicator_init C_DELETE = LEN_STR_PAIR ''31''"
| "color_indicator_init C_LINE = LEN_STR_PAIR ''36''"

text \<open>
  The world at program start: nothing written, a stream without a limit, colours off,
  \<^verbatim>\<open>last_context = RESET_CONTEXT\<close>, no palette.
\<close>

definition world_init :: world where
  "world_init =
     \<lparr>trace = [], room = None, colors_enabled = False, last_context = RESET_CONTEXT,
      color_indicator = color_indicator_init, palette_buf = [], color_palette = None,
      stderr = []\<rparr>"

subsection \<open>Predicates used to state the properties of the palette parser\<close>

text \<open>
  In the states that have consumed the introducer of an escape and not yet stored its
  byte, the read pointer is one byte further ahead of the write pointer.
\<close>

fun slack :: "funky_state \<Rightarrow> nat" where
  "slack ST_GND = 0"
| "slack ST_END = 0"
| "slack ST_ERROR = 0"
| "slack ST_BACKSLASH = 1"
| "slack ST_OCTAL = 1"
| "slack ST_HEX = 1"
| "slack ST_CARET = 1"

text \<open>
  \<open>behind m t\<close>: in the state \<open>t\<close> of a run on the buffer \<open>m\<close>, the write pointer is
  at or before the read pointer, and every byte from the read pointer on is still the
  byte of \<open>m\<close>: nothing was written at a position not yet read.
\<close>

definition behind :: "string \<Rightarrow> funky \<Rightarrow> bool" where
  "behind m t = (fs_q t + slack (fs_state t) \<le> fs_p t \<and>
                 (\<forall>i. fs_p t \<le> i \<longrightarrow> peek (fs_mem t) i = peek m i))"

text \<open>The bytes \<^verbatim>\<open>\e[^?:z\<close>: an escape, a copied byte, the caret form of DEL.\<close>

definition funky_example :: string where
  "funky_example = [CHR 0x5C, CHR ''e'', CHR ''['', CHR ''^'', CHR ''?'', CHR '':'', CHR ''z'']"


text \<open>
  \<open>pdc_behind m0 s\<close>: in the state \<open>s\<close> of \<^verbatim>\<open>parse_diff_color\<close> on the palette \<open>m0\<close>,
  the write pointer \<open>buf\<close> is at or before the read pointer \<open>p\<close>, and the bytes from
  \<open>p\<close> on are still those of \<open>m0\<close>.
\<close>

definition pdc_behind :: "string \<Rightarrow> pdc \<Rightarrow> bool" where
  "pdc_behind m0 s =
     (ps_buf s \<le> ps_p s \<and>
      (\<forall>i. ps_p s \<le> i \<longrightarrow> peek (palette_buf (ps_world s)) i = peek m0 i))"

subsection \<open>Options and the character functions of the locale\<close>

text \<open>
  \<^verbatim>\<open>mcel_t\<close>, the result of \<^verbatim>\<open>mcel_scan\<close>: the character \<open>mc_ch\<close> (a \<^verbatim>\<open>char32_t\<close>), the
  error byte \<open>mc_err\<close> (zero when the bytes form a character) and the length \<open>mc_len\<close>.
\<close>

record mcel =
  mc_ch :: nat
  mc_err :: nat
  mc_len :: nat

text \<open>
  The global options that \<^verbatim>\<open>util.c\<close> reads (they are declared in \<^verbatim>\<open>diff.h\<close> and set
  by the option parser, neither of which is among the sources), and the functions of
  gnulib and the C library that depend on the locale, taken as parameters:
  \<^item> \<open>ignore_regexp\<close> is \<open>None\<close> when no \<^verbatim>\<open>-I\<close> pattern was given
    (\<^verbatim>\<open>ignore_regexp.fastmap\<close> is null); otherwise it is the compiled pattern, given by
    its search function: \<open>f text\<close> is the result of
    \<^verbatim>\<open>re_search (&ignore_regexp, text, len, 0, len, nullptr)\<close>, the offset of a match
    or a negative number;
  \<^item> \<open>ignore_white_space\<close> is the value of the enumeration \<^verbatim>\<open>DIFF_white_space\<close>, and
    \<open>IGNORE_TRAILING_SPACE\<close>, \<open>IGNORE_SPACE_CHANGE\<close> are the values of its two
    enumerators that \<^verbatim>\<open>util.c\<close> compares it with;
  \<^item> \<open>mcel_scan t\<close> scans the first character of the bytes \<open>t\<close>.
\<close>

record config =
  expand_tabs :: bool
  tabsize :: int
  initial_tab :: bool
  suppress_blank_empty :: bool
  ignore_blank_lines :: bool
  ignore_white_space :: int
  IGNORE_TRAILING_SPACE :: int
  IGNORE_SPACE_CHANGE :: int
  ignore_regexp :: "(string \<Rightarrow> int) option"
  mcel_scan :: "string \<Rightarrow> mcel"
  c32isspace :: "nat \<Rightarrow> bool"
  c32isprint :: "nat \<Rightarrow> bool"
  c32width :: "nat \<Rightarrow> int"

text \<open>
  \<^verbatim>\<open>mcel.h\<close> promises a length of at least one byte and of at most the bytes that are
  there.  The model clamps the length of the parameter into this range, so that every
  scanner it admits keeps the promise.
\<close>

definition scan_len :: "config \<Rightarrow> string \<Rightarrow> nat" where
  "scan_len cfg t = min (length t) (max 1 (mc_len (mcel_scan cfg t)))"

text \<open>Division and remainder of C: the quotient is truncated towards zero.\<close>

definition c_div :: "int \<Rightarrow> int \<Rightarrow> int" where
  "c_div a b = (if (a < 0) = (b < 0) then \<bar>a\<bar> div \<bar>b\<bar> else - (\<bar>a\<bar> div \<bar>b\<bar>))"

definition c_mod :: "int \<Rightarrow> int \<Rightarrow> int" where
  "c_mod a b = a - b * c_div a b"

text \<open>
  \<^verbatim>\<open>fprintf\<close> with a format whose only conversions are \<^verbatim>\<open>%s\<close>, all with the same
  argument: the text that is printed.
\<close>

fun sprintf_s :: "string \<Rightarrow> string \<Rightarrow> string" where
  "sprintf_s [] a = []"
| "sprintf_s [c] a = [c]"
| "sprintf_s (c # d # r) a =
     (if c = CHR ''%'' \<and> d = CHR ''s'' then a @ sprintf_s r a else c # sprintf_s (d # r) a)"

subsection \<open>Signals and colours\<close>

text \<open>
  \<^verbatim>\<open>process_signals\<close> acts only when a signal has arrived.  The arrival of signals is
  outside the model; the call is recorded in the trace as a polling point.
\<close>

definition process_signals :: "world \<Rightarrow> world" where
  "process_signals w = w\<lparr>trace := trace w @ [Poll]\<rparr>"

text \<open>The bytes a \<^verbatim>\<open>struct bin_str\<close> denotes.\<close>

definition bin_bytes :: "world \<Rightarrow> bin_str \<Rightarrow> string" where
  "bin_bytes w b =
     (case string b of
        Nullptr \<Rightarrow> []
      | Literal s \<Rightarrow> take (len b) s
      | InPalette off \<Rightarrow> take (len b) (drop off (palette_buf w)))"

definition put_indicator :: "indicator_no \<Rightarrow> world \<Rightarrow> world" where
  "put_indicator ind w = fst (fwrite (bin_bytes w (color_indicator w ind)) w)"

definition set_color_context :: "color_context \<Rightarrow> world \<Rightarrow> world" where
  "set_color_context color_context w =
     (let w1 = (if color_context \<noteq> RESET_CONTEXT then process_signals w else w)
      in if colors_enabled w1 \<and> last_context w1 \<noteq> color_context
         then (let w2 = put_indicator C_LEFT w1;
                   w3 = (case color_context of
                           HEADER_CONTEXT \<Rightarrow> put_indicator C_HEADER w2
                         | LINE_NUMBER_CONTEXT \<Rightarrow> put_indicator C_LINE w2
                         | ADD_CONTEXT \<Rightarrow> put_indicator C_ADD w2
                         | DELETE_CONTEXT \<Rightarrow> put_indicator C_DELETE w2
                         | RESET_CONTEXT \<Rightarrow> put_indicator C_RESET w2);
                   w4 = put_indicator C_RIGHT w3
               in w4\<lparr>last_context := color_context\<rparr>)
         else w1)"

subsection \<open>Printing one line: \<^verbatim>\<open>output_1_line\<close>\<close>

definition MAX_CHUNK :: nat where "MAX_CHUNK = 1024"

text \<open>
  Without \<^verbatim>\<open>-t\<close>: the loop \<^verbatim>\<open>while (left)\<close>.  \<open>base\<close> is the text from \<^verbatim>\<open>base\<close> up to
  \<^verbatim>\<open>limit\<close>, so \<^verbatim>\<open>left\<close> is its length.
\<close>

function write_chunks :: "string \<Rightarrow> world \<Rightarrow> world" where
  "write_chunks base w =
     (if base = [] then w
      else (let to_write = min (length base) MAX_CHUNK;
                r = fwrite (take to_write base) w;
                w' = process_signals (fst r)
            in if snd r < to_write then w'
               else write_chunks (drop (snd r) base) w'))"
  by pat_completeness auto
termination
  by (relation "measure (\<lambda>(base, w). length base)") (auto simp: MAX_CHUNK_def)

declare write_chunks.simps [simp del]

text \<open>
  With \<^verbatim>\<open>-t\<close>.  The inner loop of a tab,
  \<^verbatim>\<open>do if (putc (' ', out) < 0) return; while (++column < tab_size);\<close>
  The boolean is false when \<^verbatim>\<open>putc\<close> failed.
\<close>

function put_spaces :: "int \<Rightarrow> int \<Rightarrow> world \<Rightarrow> world \<times> bool" where
  "put_spaces tab_size column w =
     (let r = putc (CHR '' '') w
      in if \<not> snd r then (fst r, False)
         else if column + 1 < tab_size then put_spaces tab_size (column + 1) (fst r)
         else (fst r, True))"
  by pat_completeness auto
termination
  by (relation "measure (\<lambda>(tab_size, column, w). nat (tab_size - column))") auto

declare put_spaces.simps [simp del]

text \<open>
  The variables of the loop \<^verbatim>\<open>while (t < limit)\<close>: the text \<open>xl_t\<close> from \<^verbatim>\<open>t\<close> up to
  \<^verbatim>\<open>limit\<close>, \<open>tab\<close>, \<open>column\<close>, \<open>counter_proc_signals\<close>, and the world.
\<close>

record expand =
  xl_t :: string
  xl_tab :: int
  xl_column :: int
  xl_counter :: int
  xl_world :: world

text \<open>
  The top of an iteration: the counter is incremented, and when it reaches
  \<^verbatim>\<open>MAX_CHUNK\<close> the signals are processed and the counter is reset.  The \<open>Iter\<close> event
  marks the iteration in the trace.
\<close>

definition count_iteration :: "expand \<Rightarrow> expand" where
  "count_iteration s =
     (let w = (xl_world s)\<lparr>trace := trace (xl_world s) @ [Iter]\<rparr>;
          c = xl_counter s + 1
      in if c = int MAX_CHUNK
         then s\<lparr>xl_counter := 0, xl_world := process_signals w\<rparr>
         else s\<lparr>xl_counter := c, xl_world := w\<rparr>)"

text \<open>
  The \<^verbatim>\<open>switch (*t)\<close> of one iteration.  The result is \<open>Inl w\<close> when the function
  returns (a write failed), and \<open>Inr s\<close> when the loop goes on with \<open>s\<close>.
\<close>

definition tab_case :: "int \<Rightarrow> expand \<Rightarrow> world + expand" where
  "tab_case tab_size s =
     (let r = put_spaces tab_size (xl_column s) (xl_world s)
      in if \<not> snd r then Inl (fst r)
         else Inr (s\<lparr>xl_t := tl (xl_t s), xl_tab := xl_tab s + 1, xl_column := 0,
                     xl_world := fst r\<rparr>))"

definition cr_case :: "string option \<Rightarrow> string \<Rightarrow> expand \<Rightarrow> world + expand" where
  "cr_case flag_format line_flag s =
     (let t = tl (xl_t s);
          r = putc CR (xl_world s)
      in if \<not> snd r then Inl (fst r)
         else (case flag_format of
                 Some fmt \<Rightarrow>
                   if t \<noteq> [] \<and> hd t \<noteq> NL
                   then (let r2 = fprintf (sprintf_s fmt line_flag) (fst r)
                         in if \<not> snd r2 then Inl (fst r2)
                            else Inr (s\<lparr>xl_t := t, xl_tab := 0, xl_column := 0,
                                        xl_world := fst r2\<rparr>))
                   else Inr (s\<lparr>xl_t := t, xl_tab := 0, xl_column := 0, xl_world := fst r\<rparr>)
               | None \<Rightarrow>
                   Inr (s\<lparr>xl_t := t, xl_tab := 0, xl_column := 0, xl_world := fst r\<rparr>)))"

definition bs_put :: "expand \<Rightarrow> world + expand" where
  "bs_put s =
     (let r = putc BS (xl_world s)
      in if \<not> snd r then Inl (fst r) else Inr (s\<lparr>xl_world := fst r\<rparr>))"

definition bs_case :: "int \<Rightarrow> expand \<Rightarrow> world + expand" where
  "bs_case tab_size s =
     (let s1 = s\<lparr>xl_t := tl (xl_t s)\<rparr>
      in if 0 < xl_column s1 then bs_put (s1\<lparr>xl_column := xl_column s1 - 1\<rparr>)
         else if 0 < xl_tab s1
         then bs_put (s1\<lparr>xl_tab := xl_tab s1 - 1, xl_column := tab_size - 1\<rparr>)
         else Inr s1)"

definition default_case :: "config \<Rightarrow> int \<Rightarrow> expand \<Rightarrow> world + expand" where
  "default_case cfg tab_size s =
     (let g = mcel_scan cfg (xl_t s);
          n = scan_len cfg (xl_t s);
          column = xl_column s +
                     (if mc_err g \<noteq> 0 then 1
                      else if c32isprint cfg (mc_ch g) then c32width cfg (mc_ch g) else 0);
          tab = xl_tab s + c_div column tab_size;
          column' = c_mod column tab_size;
          r = fwrite (take n (xl_t s)) (xl_world s)
      in if snd r \<noteq> n then Inl (fst r)
         else Inr (s\<lparr>xl_t := drop n (xl_t s), xl_tab := tab, xl_column := column',
                     xl_world := fst r\<rparr>))"

definition expand_step :: "config \<Rightarrow> string option \<Rightarrow> string \<Rightarrow> expand \<Rightarrow> world + expand" where
  "expand_step cfg flag_format line_flag s0 =
     (let s = count_iteration s0;
          c = hd (xl_t s)
      in if c = TAB then tab_case (tabsize cfg) s
         else if c = CR then cr_case flag_format line_flag s
         else if c = BS then bs_case (tabsize cfg) s
         else default_case cfg (tabsize cfg) s)"

lemma expand_step_shorter:
  "xl_t s \<noteq> [] \<Longrightarrow> expand_step cfg flag_format line_flag s = Inr s' \<Longrightarrow>
   length (xl_t s') < length (xl_t s)"
  by (auto simp: expand_step_def count_iteration_def tab_case_def cr_case_def bs_case_def
      bs_put_def default_case_def scan_len_def Let_def
      split: if_splits option.splits)

function expand_loop :: "config \<Rightarrow> string option \<Rightarrow> string \<Rightarrow> expand \<Rightarrow> world" where
  "expand_loop cfg flag_format line_flag s =
     (if xl_t s = [] then xl_world s
      else case expand_step cfg flag_format line_flag s of
             Inl w \<Rightarrow> w
           | Inr s' \<Rightarrow> expand_loop cfg flag_format line_flag s')"
  by pat_completeness auto
termination
  by (relation "measure (\<lambda>(cfg, flag_format, line_flag, s). length (xl_t s))")
     (auto simp: expand_step_shorter)

declare expand_loop.simps [simp del]

text \<open>
  \<^verbatim>\<open>output_1_line (base, limit, flag_format, line_flag)\<close>; \<open>str\<close> is the text from
  \<^verbatim>\<open>base\<close> up to \<^verbatim>\<open>limit\<close>.  \<open>flag_format\<close> is \<open>None\<close> for a null pointer;
  \<open>line_flag\<close> is read only when \<open>flag_format\<close> is not null.
\<close>

definition output_1_line :: "config \<Rightarrow> string \<Rightarrow> string option \<Rightarrow> string \<Rightarrow> world \<Rightarrow> world" where
  "output_1_line cfg str flag_format line_flag w =
     (if \<not> expand_tabs cfg then write_chunks str w
      else expand_loop cfg flag_format line_flag
             \<lparr>xl_t = str, xl_tab = 0, xl_column = 0, xl_counter = 0, xl_world = w\<rparr>)"

subsection \<open>Printing one line with its flag: \<^verbatim>\<open>print_1_line_nl\<close>\<close>

text \<open>
  \<open>line\<close> is the text from \<^verbatim>\<open>line[0]\<close> up to \<^verbatim>\<open>line[1]\<close>; a line of the line table has
  at least one byte.  \<open>ends_nl line\<close> is \<^verbatim>\<open>limit[-1] == '\n'\<close>.
\<close>

definition ends_nl :: "string \<Rightarrow> bool" where
  "ends_nl line = (line \<noteq> [] \<and> last line = NL)"

definition no_newline_marker :: string where
  "no_newline_marker = sprintf_s [NL, CHR 0x5C, CHR '' '', CHR ''%'', CHR ''s'', NL]
                         ''No newline at end of file''"

text \<open>
  The first statement of the body: the flag, when there is one, followed by a tab or a
  space, or without a trailing blank for an empty line under \<^verbatim>\<open>suppress_blank_empty\<close>.
  The result is \<open>flag_format\<close> and the world.
\<close>

definition print_line_flag :: "config \<Rightarrow> string option \<Rightarrow> string \<Rightarrow> world \<Rightarrow> string option \<times> world" where
  "print_line_flag cfg line_flag line w =
     (case line_flag of
        None \<Rightarrow> (None, w)
      | Some f \<Rightarrow>
          if f = [] then (None, w)
          else (let flag_format = (if initial_tab cfg then [CHR ''%'', CHR ''s'', TAB] else ''%s '');
                    blank = (suppress_blank_empty cfg \<and> line \<noteq> [] \<and> hd line = NL);
                    flag_format_1 = (if blank then ''%s'' else flag_format);
                    line_flag_1 = (if blank \<and> hd f = CHR '' '' then tl f else f)
                in (Some flag_format, fst (fprintf (sprintf_s flag_format_1 line_flag_1) w))))"

text \<open>
  The second statement: the text of the line, without its newline when \<open>skip_nl\<close> asks
  for that, through \<^verbatim>\<open>output_1_line\<close>.
\<close>

definition print_line_content :: "config \<Rightarrow> string option \<Rightarrow> string \<Rightarrow> bool \<Rightarrow> world \<Rightarrow> world" where
  "print_line_content cfg line_flag line skip_nl w =
     (let (flag_format, w1) = print_line_flag cfg line_flag line w
      in output_1_line cfg (if skip_nl \<and> ends_nl line then butlast line else line)
           flag_format (case line_flag of None \<Rightarrow> [] | Some f \<Rightarrow> f) w1)"

text \<open>
  The whole body; its last statement prints the marker of an incomplete line, guarded
  by \<^verbatim>\<open>(!line_flag || line_flag[0]) && limit[-1] != '\n'\<close>.
\<close>

definition print_1_line_nl :: "config \<Rightarrow> string option \<Rightarrow> string \<Rightarrow> bool \<Rightarrow> world \<Rightarrow> world" where
  "print_1_line_nl cfg line_flag line skip_nl w =
     (let w2 = print_line_content cfg line_flag line skip_nl w
      in if (line_flag = None \<or> line_flag \<noteq> Some []) \<and> \<not> ends_nl line
         then fst (fprintf no_newline_marker (set_color_context RESET_CONTEXT w2))
         else w2)"

definition print_1_line :: "config \<Rightarrow> string option \<Rightarrow> string \<Rightarrow> world \<Rightarrow> world" where
  "print_1_line cfg line_flag line w = print_1_line_nl cfg line_flag line False w"

subsection \<open>Predicates on traces and example values\<close>

text \<open>
  \<open>chunked tr\<close>: the trace is a sequence of writes of at most \<^verbatim>\<open>MAX_CHUNK\<close> bytes, each
  followed at once by a call of \<^verbatim>\<open>process_signals\<close>.
\<close>

fun chunked :: "event list \<Rightarrow> bool" where
  "chunked [] = True"
| "chunked (Wrote s # Poll # r) = (length s \<le> MAX_CHUNK \<and> chunked r)"
| "chunked (e # r) = False"

text \<open>
  \<open>paced k tr\<close>, where \<open>k\<close> iterations have started since the last call of
  \<^verbatim>\<open>process_signals\<close>: a call comes exactly when \<^verbatim>\<open>MAX_CHUNK\<close> iterations have
  started, and before that no further iteration starts and nothing more is written.
\<close>

fun paced :: "nat \<Rightarrow> event list \<Rightarrow> bool" where
  "paced k [] = True"
| "paced k (Poll # r) = (k = MAX_CHUNK \<and> paced 0 r)"
| "paced k (Iter # r) = (k < MAX_CHUNK \<and> paced (Suc k) r)"
| "paced k (Wrote s # r) = (k < MAX_CHUNK \<and> paced k r)"

fun is_wrote :: "event \<Rightarrow> bool" where
  "is_wrote (Wrote s) = True"
| "is_wrote Poll = False"
| "is_wrote Iter = False"

text \<open>
  The bytes \<^verbatim>\<open>set_color_context (RESET_CONTEXT)\<close> writes in the world \<open>w\<close>: nothing when
  the colours are off or already reset.
\<close>

definition reset_sequence :: "world \<Rightarrow> string" where
  "reset_sequence w =
     (if colors_enabled w \<and> last_context w \<noteq> RESET_CONTEXT
      then bin_bytes w (color_indicator w C_LEFT) @ bin_bytes w (color_indicator w C_RESET) @
           bin_bytes w (color_indicator w C_RIGHT)
      else [])"

text \<open>
  An example configuration: every option off, tab stops every 8 columns, and the
  character functions of a single-byte locale restricted to ASCII.
\<close>

definition config_example :: config where
  "config_example =
     \<lparr>expand_tabs = False, tabsize = 8, initial_tab = False, suppress_blank_empty = False,
      ignore_blank_lines = False, ignore_white_space = 0,
      IGNORE_TRAILING_SPACE = 2, IGNORE_SPACE_CHANGE = 4, ignore_regexp = None,
      mcel_scan = (\<lambda>t. \<lparr>mc_ch = (case t of [] \<Rightarrow> 0 | c # r \<Rightarrow> of_char c), mc_err = 0, mc_len = 1\<rparr>),
      c32isspace = (\<lambda>c. c = 32 \<or> (9 \<le> c \<and> c \<le> 13)),
      c32isprint = (\<lambda>c. 32 \<le> c \<and> c < 127),
      c32width = (\<lambda>c. 1)\<rparr>"

text \<open>
  The world a step of the tab-expanding loop leaves, and \<open>writes_only s r\<close>: the
  result \<open>r\<close> of a step from \<open>s\<close> has added only writes to the trace and has kept the
  counter.
\<close>

definition world_of :: "world + expand \<Rightarrow> world" where
  "world_of r = (case r of Inl w \<Rightarrow> w | Inr s \<Rightarrow> xl_world s)"

definition writes_only :: "expand \<Rightarrow> world + expand \<Rightarrow> bool" where
  "writes_only s r =
     ((\<exists>ws. trace (world_of r) = trace (xl_world s) @ ws \<and> list_all is_wrote ws) \<and>
      (\<forall>s'. r = Inr s' \<longrightarrow> xl_counter s' = xl_counter s))"

text \<open>
  The configuration of the example with \<^verbatim>\<open>-t\<close>: tabs are expanded.
\<close>

definition config_tabs :: config where
  "config_tabs = config_example\<lparr>expand_tabs := True\<rparr>"

text \<open>
  Counting in a trace: the calls of \<^verbatim>\<open>process_signals\<close>, the iterations of the
  tab-expanding loop, and the bytes written.
\<close>

definition polls :: "event list \<Rightarrow> nat" where
  "polls tr = length (filter (\<lambda>e. e = Poll) tr)"

definition iters :: "event list \<Rightarrow> nat" where
  "iters tr = length (filter (\<lambda>e. e = Iter) tr)"

definition nbytes :: "event list \<Rightarrow> nat" where
  "nbytes tr = length (concat (map bytes_of tr))"

text \<open>
  \<open>bounded_gaps B n tr\<close>, where \<open>n\<close> bytes have been written since the last call of
  \<^verbatim>\<open>process_signals\<close>: at every call of \<^verbatim>\<open>process_signals\<close> in \<open>tr\<close>, and at the end of
  \<open>tr\<close>, at most \<open>B\<close> bytes have been written since the call before (or since the
  start).
\<close>

fun bounded_gaps :: "nat \<Rightarrow> nat \<Rightarrow> event list \<Rightarrow> bool" where
  "bounded_gaps B n [] = (n \<le> B)"
| "bounded_gaps B n (Poll # r) = (n \<le> B \<and> bounded_gaps B 0 r)"
| "bounded_gaps B n (Wrote s # r) = bounded_gaps B (n + length s) r"
| "bounded_gaps B n (Iter # r) = bounded_gaps B n r"

text \<open>
  The iterations of the tab-expanding loop over the text \<open>t\<close> when no write fails: an
  iteration consumes one byte for a tab, a carriage return or a backspace, and the
  bytes of one scanned character otherwise (\<open>step_len\<close>); \<open>iterations cfg t\<close> is the
  number of iterations that consume \<open>t\<close>.
\<close>

definition step_len :: "config \<Rightarrow> string \<Rightarrow> nat" where
  "step_len cfg t = (if hd t = TAB \<or> hd t = CR \<or> hd t = BS then 1 else scan_len cfg t)"

function iterations :: "config \<Rightarrow> string \<Rightarrow> nat" where
  "iterations cfg t = (if t = [] then 0 else Suc (iterations cfg (drop (step_len cfg t) t)))"
  by pat_completeness auto
termination
  by (relation "measure (\<lambda>(cfg, t). length t)") (auto simp: step_len_def scan_len_def)

declare iterations.simps [simp del]

text \<open>
  The most bytes one iteration of the tab-expanding loop writes, when a scanned
  character has at most \<open>L\<close> bytes: the spaces of a tab (fewer than twice the tab
  size), a carriage return with the flag after it, or one character.
\<close>

definition step_bound :: "config \<Rightarrow> string option \<Rightarrow> string \<Rightarrow> nat \<Rightarrow> nat" where
  "step_bound cfg flag_format line_flag L =
     max (nat (2 * tabsize cfg))
       (max (1 + (case flag_format of None \<Rightarrow> 0 | Some fmt \<Rightarrow> length (sprintf_s fmt line_flag)))
          (max 1 L))"

text \<open>
  \<open>within B ts s r\<close>: the result \<open>r\<close> of a step from \<open>s\<close> has added only writes to the
  trace, of at most \<open>B\<close> bytes together, and has left the column between \<open>- ts\<close> and
  \<open>ts\<close>.
\<close>

definition within :: "nat \<Rightarrow> int \<Rightarrow> expand \<Rightarrow> world + expand \<Rightarrow> bool" where
  "within B ts s r =
     ((\<exists>ws. trace (world_of r) = trace (xl_world s) @ ws \<and> list_all is_wrote ws \<and> nbytes ws \<le> B) \<and>
      (\<forall>s'. r = Inr s' \<longrightarrow> - ts < xl_column s' \<and> xl_column s' < ts))"

subsection \<open>The edit script and the classification of a hunk: \<^verbatim>\<open>analyze_hunk\<close>\<close>

text \<open>
  \<^verbatim>\<open>struct change\<close>.  \<open>link\<close> is the address of the next change, \<open>None\<close> for a null
  pointer.
\<close>

record change =
  link :: "nat option"
  inserted :: lin
  deleted :: lin
  line0 :: lin
  line1 :: lin

text \<open>
  \<^verbatim>\<open>enum changes\<close> is declared in \<^verbatim>\<open>diff.h\<close>, which is not among the sources.  Its
  values index \<^verbatim>\<open>change_letter[] = { '\0', 'd', 'a', 'c' }\<close> of \<^verbatim>\<open>util.c\<close>, and
  \<^verbatim>\<open>analyze_hunk\<close> combines \<^verbatim>\<open>OLD\<close> and \<^verbatim>\<open>NEW\<close> with the bitwise or into \<^verbatim>\<open>CHANGED\<close>:
  \<^verbatim>\<open>UNCHANGED\<close> is 0, \<^verbatim>\<open>OLD\<close> is 1, \<^verbatim>\<open>NEW\<close> is 2 and \<^verbatim>\<open>CHANGED\<close> is 3.
\<close>

datatype changes = UNCHANGED | OLD | NEW | CHANGED

fun changes_val :: "changes \<Rightarrow> nat" where
  "changes_val UNCHANGED = 0"
| "changes_val OLD = 1"
| "changes_val NEW = 2"
| "changes_val CHANGED = 3"

definition changes_of :: "nat \<Rightarrow> changes" where
  "changes_of n = (if n = 0 then UNCHANGED else if n = 1 then OLD else if n = 2 then NEW else CHANGED)"

definition changes_or :: "changes \<Rightarrow> changes \<Rightarrow> changes" where
  "changes_or a b = changes_of (or (changes_val a) (changes_val b))"

text \<open>
  A line \<open>l\<close> of the line table is the text from \<^verbatim>\<open>linbuf[i]\<close> up to \<^verbatim>\<open>linbuf[i + 1]\<close>.
  \<open>content l\<close> is the text from \<^verbatim>\<open>line\<close> up to \<^verbatim>\<open>newline\<close>: the line without its
  newline, or the whole line when it is incomplete; its length is \<^verbatim>\<open>len\<close>.
\<close>

definition content :: "string \<Rightarrow> string" where
  "content l = (if ends_nl l then butlast l else l)"

definition skip_white_space :: "config \<Rightarrow> bool" where
  "skip_white_space cfg =
     (ignore_blank_lines cfg \<and> IGNORE_TRAILING_SPACE cfg \<le> ignore_white_space cfg)"

definition skip_leading_white_space :: "config \<Rightarrow> bool" where
  "skip_leading_white_space cfg =
     (skip_white_space cfg \<and> IGNORE_SPACE_CHANGE cfg \<le> ignore_white_space cfg)"

text \<open>\<^verbatim>\<open>trivial_length = ignore_blank_lines - 1\<close>\<close>

definition trivial_length :: "config \<Rightarrow> int" where
  "trivial_length cfg = (if ignore_blank_lines cfg then 1 else 0) - 1"

text \<open>
  The loop \<^verbatim>\<open>while (*p != '\n')\<close> over the content of a line.  \<open>r\<close> is the text from
  \<open>p\<close> up to \<^verbatim>\<open>newline\<close> and \<open>whole\<close> the text from \<^verbatim>\<open>line\<close>; the result is the text
  from the final \<open>p\<close>, so that its length is \<^verbatim>\<open>newline - p\<close>.  At \<^verbatim>\<open>newline\<close> the byte
  is a newline: the newline of the line, or, after an incomplete last line, the
  newline that the reader of the file keeps behind the text (\<^verbatim>\<open>io.c\<close> is not among
  the sources).
\<close>

function skip_white :: "config \<Rightarrow> string \<Rightarrow> string \<Rightarrow> string" where
  "skip_white cfg whole r =
     (if r = [] \<or> hd r = NL then r
      else if \<not> c32isspace cfg (mc_ch (mcel_scan cfg r))
      then (if \<not> skip_leading_white_space cfg then whole else r)
      else skip_white cfg whole (drop (scan_len cfg r) r))"
  by pat_completeness auto
termination
  by (relation "measure (\<lambda>(cfg, whole, r). length r)") (auto simp: scan_len_def)

declare skip_white.simps [simp del]

text \<open>\<^verbatim>\<open>newline - p\<close> after the optional skipping of white space.\<close>

definition newline_minus_p :: "config \<Rightarrow> string \<Rightarrow> int" where
  "newline_minus_p cfg l =
     (if skip_white_space cfg then int (length (skip_white cfg (content l) (content l)))
      else int (length (content l)))"

text \<open>
  The condition under which a line makes the hunk non-trivial:
  \<^verbatim>\<open>newline - p != trivial_length && (! ignore_regexp.fastmap || re_search (...) < 0)\<close>.
\<close>

definition line_nontrivial :: "config \<Rightarrow> string \<Rightarrow> bool" where
  "line_nontrivial cfg l =
     (newline_minus_p cfg l \<noteq> trivial_length cfg \<and>
      (case ignore_regexp cfg of None \<Rightarrow> True | Some re \<Rightarrow> re (content l) < 0))"

text \<open>
  \<^verbatim>\<open>for (lin i = first; i <= last && trivial; i++)\<close> over the lines of one file; the
  result is the new value of \<open>trivial\<close>.
\<close>

function scan_lines :: "config \<Rightarrow> (lin \<Rightarrow> string) \<Rightarrow> lin \<Rightarrow> lin \<Rightarrow> bool \<Rightarrow> bool" where
  "scan_lines cfg lb i l trivial =
     (if i \<le> l \<and> trivial
      then scan_lines cfg lb (i + 1) l (if line_nontrivial cfg (lb i) then False else trivial)
      else trivial)"
  by pat_completeness auto
termination
  by (relation "measure (\<lambda>(cfg, lb, i, l, trivial). nat (l + 1 - i))") auto

declare scan_lines.simps [simp del]

text \<open>
  The variables that the loop over the changes of the hunk carries: \<open>show_from\<close>,
  \<open>show_to\<close>, \<open>trivial\<close>, \<open>l0\<close> and \<open>l1\<close>.
\<close>

record hunk_vars =
  show_from :: lin
  show_to :: lin
  trivial :: bool
  hv_l0 :: lin
  hv_l1 :: lin

text \<open>The body of \<^verbatim>\<open>do ... while ((next = next->link))\<close> for the change \<open>next\<close>.\<close>

definition hunk_body :: "config \<Rightarrow> file_data \<Rightarrow> file_data \<Rightarrow> change \<Rightarrow> hunk_vars \<Rightarrow> hunk_vars" where
  "hunk_body cfg file0 file1 next v =
     (let l0 = line0 next + deleted next - 1;
          l1 = line1 next + inserted next - 1;
          t0 = scan_lines cfg (linbuf file0) (line0 next) l0 (trivial v);
          t1 = scan_lines cfg (linbuf file1) (line1 next) l1 t0
      in \<lparr>show_from = show_from v + deleted next, show_to = show_to v + inserted next,
          trivial = t1, hv_l0 = l0, hv_l1 = l1\<rparr>)"

text \<open>
  The hunk is the chain of changes from \<^verbatim>\<open>hunk\<close> to the first null link, given as
  the list of its changes in the order of the links.
\<close>

fun hunk_loop :: "config \<Rightarrow> file_data \<Rightarrow> file_data \<Rightarrow> change list \<Rightarrow> hunk_vars \<Rightarrow> hunk_vars" where
  "hunk_loop cfg file0 file1 [] v = v"
| "hunk_loop cfg file0 file1 (next # rest) v =
     hunk_loop cfg file0 file1 rest (hunk_body cfg file0 file1 next v)"

text \<open>
  \<^verbatim>\<open>analyze_hunk\<close>: the result is the return value with \<^verbatim>\<open>*first0\<close>, \<^verbatim>\<open>*last0\<close>,
  \<^verbatim>\<open>*first1\<close> and \<^verbatim>\<open>*last1\<close>.  The code dereferences \<^verbatim>\<open>hunk\<close> at once; a null
  \<^verbatim>\<open>hunk\<close> (the empty list) has no result.
\<close>

definition hunk_start :: "config \<Rightarrow> hunk_vars" where
  "hunk_start cfg =
     \<lparr>show_from = 0, show_to = 0,
      trivial = (ignore_blank_lines cfg \<or> ignore_regexp cfg \<noteq> None),
      hv_l0 = 0, hv_l1 = 0\<rparr>"

definition analyze_hunk ::
  "config \<Rightarrow> file_data \<Rightarrow> file_data \<Rightarrow> change list \<Rightarrow> (changes \<times> lin \<times> lin \<times> lin \<times> lin) option" where
  "analyze_hunk cfg file0 file1 hunk =
     (case hunk of
        [] \<Rightarrow> None
      | first # rest \<Rightarrow>
          (let v = hunk_loop cfg file0 file1 hunk (hunk_start cfg);
               res = (if trivial v then UNCHANGED
                      else changes_or (if show_from v \<noteq> 0 then OLD else UNCHANGED)
                                      (if show_to v \<noteq> 0 then NEW else UNCHANGED))
           in Some (res, line0 first, hv_l0 v, line1 first, hv_l1 v)))"

subsection \<open>Predicates used to state the properties of \<^verbatim>\<open>analyze_hunk\<close>\<close>

text \<open>
  A line is ignorable when an ignore rule is active (\<^verbatim>\<open>-B\<close> or \<^verbatim>\<open>-I\<close>) and the line does
  not make its hunk non-trivial.
\<close>

definition ignorable :: "config \<Rightarrow> string \<Rightarrow> bool" where
  "ignorable cfg l =
     ((ignore_blank_lines cfg \<or> ignore_regexp cfg \<noteq> None) \<and> \<not> line_nontrivial cfg l)"

text \<open>The lines of file 0 that a hunk deletes and the lines of file 1 that it inserts.\<close>

definition deleted_lines :: "file_data \<Rightarrow> change list \<Rightarrow> string list" where
  "deleted_lines file0 hunk =
     concat (map (\<lambda>c. map (linbuf file0) [line0 c..line0 c + deleted c - 1]) hunk)"

definition inserted_lines :: "file_data \<Rightarrow> change list \<Rightarrow> string list" where
  "inserted_lines file1 hunk =
     concat (map (\<lambda>c. map (linbuf file1) [line1 c..line1 c + inserted c - 1]) hunk)"

text \<open>
  \<open>white_only cfg r\<close>: the text \<open>r\<close> consists of white-space characters of the locale.
\<close>

function white_only :: "config \<Rightarrow> string \<Rightarrow> bool" where
  "white_only cfg r =
     (if r = [] then True
      else if hd r = NL then False
      else if \<not> c32isspace cfg (mc_ch (mcel_scan cfg r)) then False
      else white_only cfg (drop (scan_len cfg r) r))"
  by pat_completeness auto
termination
  by (relation "measure (\<lambda>(cfg, r). length r)") (auto simp: scan_len_def)

declare white_only.simps [simp del]

text \<open>
  A blank line: nothing before the newline, or, when \<^verbatim>\<open>-B\<close> is combined with an option
  that ignores white space at the end of lines, nothing but white space.
\<close>

definition blank_line :: "config \<Rightarrow> string \<Rightarrow> bool" where
  "blank_line cfg l =
     (content l = [] \<or> (skip_white_space cfg \<and> white_only cfg (content l)))"

text \<open>\<open>quiet cfg ls\<close>: none of the lines \<open>ls\<close> makes a hunk non-trivial.\<close>

definition quiet :: "config \<Rightarrow> string list \<Rightarrow> bool" where
  "quiet cfg ls = list_all (\<lambda>x. \<not> line_nontrivial cfg x) ls"

text \<open>
  Modelled from the spec: the verdict of a comparison.  The spec (data model): the
  ``tri-state result of one comparison: identical, different, trouble''.
\<close>

datatype diff_verdict = Identical | Different | Trouble

text \<open>
  Modelled from the spec: the hunk printers and the comparison driver, which call
  \<^verbatim>\<open>analyze_hunk\<close>, are not among the sources.  The spec (triviality filter): a hunk
  whose lines are all ignorable is marked \<^verbatim>\<open>UNCHANGED\<close> and dropped ``from output and
  from the overall files-differ verdict''.  So a hunk is shown when \<^verbatim>\<open>analyze_hunk\<close>
  does not return \<^verbatim>\<open>UNCHANGED\<close>, and the files differ when some hunk is shown.
\<close>

definition hunk_shown :: "config \<Rightarrow> file_data \<Rightarrow> file_data \<Rightarrow> change list \<Rightarrow> bool" where
  "hunk_shown cfg file0 file1 hunk =
     (case analyze_hunk cfg file0 file1 hunk of
        None \<Rightarrow> False
      | Some r \<Rightarrow> fst r \<noteq> UNCHANGED)"

definition shown_hunks :: "config \<Rightarrow> file_data \<Rightarrow> file_data \<Rightarrow> change list list \<Rightarrow> change list list" where
  "shown_hunks cfg file0 file1 hunks = filter (hunk_shown cfg file0 file1) hunks"

definition verdict :: "config \<Rightarrow> file_data \<Rightarrow> file_data \<Rightarrow> change list list \<Rightarrow> diff_verdict" where
  "verdict cfg file0 file1 hunks =
     (if shown_hunks cfg file0 file1 hunks = [] then Identical else Different)"

text \<open>
  Example values: a pattern that matches a line starting with \<^verbatim>\<open>x\<close> (the pattern
  \<^verbatim>\<open>^x\<close>), a file of four lines, the options \<^verbatim>\<open>-B\<close>, \<^verbatim>\<open>-w -I ^x\<close> and
  \<^verbatim>\<open>-B -I ^x\<close>, and the change that deletes one line.
\<close>

definition re_caret_x :: "string \<Rightarrow> int" where
  "re_caret_x s = (case s of [] \<Rightarrow> - 1 | c # r \<Rightarrow> if c = CHR ''x'' then 0 else - 1)"

definition file_example :: file_data where
  "file_example =
     \<lparr>prefix_lines = 0,
      linbuf = (\<lambda>i. if i = 0 then ''a\<newline>'' else if i = 1 then ''\<newline>''
                     else if i = 2 then '' x\<newline>'' else ''xy\<newline>'')\<rparr>"

definition config_B :: config where
  "config_B = config_example\<lparr>ignore_blank_lines := True\<rparr>"

definition config_I :: config where
  "config_I = config_example\<lparr>ignore_white_space := 5, ignore_regexp := Some re_caret_x\<rparr>"

definition config_BI :: config where
  "config_BI = config_example\<lparr>ignore_blank_lines := True, ignore_regexp := Some re_caret_x\<rparr>"

definition delete_line :: "lin \<Rightarrow> change" where
  "delete_line i = \<lparr>link = None, inserted = 0, deleted = 1, line0 = i, line1 = i\<rparr>"

subsection \<open>Printing the script hunk by hunk: \<^verbatim>\<open>print_script\<close>\<close>

text \<open>
  The changes live in a heap: a map from addresses to \<^verbatim>\<open>struct change\<close>.  A pointer
  to a change is an address, or \<open>None\<close> for a null pointer.
\<close>

type_synonym heap = "nat \<Rightarrow> change option"

text \<open>
  \<open>chain h p ns\<close>: following the links from \<open>p\<close> in the heap \<open>h\<close> visits the addresses
  \<open>ns\<close> in order and then reaches a null link.
\<close>

fun chain :: "heap \<Rightarrow> nat option \<Rightarrow> nat list \<Rightarrow> bool" where
  "chain h p [] = (p = None)"
| "chain h p (a # as) =
     (p = Some a \<and> (case h a of None \<Rightarrow> False | Some c \<Rightarrow> chain h (link c) as))"

text \<open>
  The state while a script is printed: the heap, the state \<open>out\<close> that the printing
  function works on, and the list \<open>calls\<close> of the calls of the printing function made
  so far, each with its argument and the heap it was given (recorded for the
  statement of the properties; nothing reads it).
\<close>

record 'w script_state =
  heap :: heap
  out :: 'w
  calls :: "(nat \<times> heap) list"

text \<open>\<^verbatim>\<open>find_change\<close> returns its argument: every change is a hunk of its own.\<close>

definition find_change :: "heap \<Rightarrow> nat option \<Rightarrow> nat option" where
  "find_change h script = script"

text \<open>
  The loop \<^verbatim>\<open>while (next)\<close> of \<^verbatim>\<open>print_script\<close>.  \<open>hunkfun\<close> reads the heap and returns
  a pointer; \<open>printfun\<close> works on the heap and on \<open>out\<close>.  Following a null pointer or
  an address that holds no change has no result (\<open>None\<close>), and so has a loop that does
  not end.
\<close>

partial_function (option) print_script_loop ::
  "(heap \<Rightarrow> nat option \<Rightarrow> nat option) \<Rightarrow> (nat \<Rightarrow> heap \<times> 'w \<Rightarrow> heap \<times> 'w) \<Rightarrow>
   nat option \<Rightarrow> 'w script_state \<Rightarrow> 'w script_state option" where
  "print_script_loop hunkfun printfun nxt s =
     (case nxt of
        None \<Rightarrow> Some s
      | Some this \<Rightarrow>
          (case hunkfun (heap s) nxt of
             None \<Rightarrow> None
           | Some endp \<Rightarrow>
               (case heap s endp of
                  None \<Rightarrow> None
                | Some e \<Rightarrow>
                    (let nxt' = link e;
                         h1 = (heap s)(endp \<mapsto> e\<lparr>link := None\<rparr>);
                         r = printfun this (h1, out s)
                     in case fst r endp of
                          None \<Rightarrow> None
                        | Some e2 \<Rightarrow>
                            print_script_loop hunkfun printfun nxt'
                              \<lparr>heap = (fst r)(endp \<mapsto> e2\<lparr>link := nxt'\<rparr>), out = snd r,
                               calls = calls s @ [(this, h1)]\<rparr>))))"

definition print_script ::
  "nat option \<Rightarrow> (heap \<Rightarrow> nat option \<Rightarrow> nat option) \<Rightarrow> (nat \<Rightarrow> heap \<times> 'w \<Rightarrow> heap \<times> 'w) \<Rightarrow>
   'w script_state \<Rightarrow> 'w script_state option" where
  "print_script script hunkfun printfun s = print_script_loop hunkfun printfun script s"

text \<open>
  \<open>ends_in_tail hunkfun h ns\<close>: called with a change of the chain \<open>ns\<close>, \<open>hunkfun\<close>
  returns that change or a later one of the chain.
\<close>

definition ends_in_tail :: "(heap \<Rightarrow> nat option \<Rightarrow> nat option) \<Rightarrow> heap \<Rightarrow> nat list \<Rightarrow> bool" where
  "ends_in_tail hunkfun h ns =
     (\<forall>pre a post. ns = pre @ a # post \<longrightarrow>
        (\<exists>e. hunkfun h (Some a) = Some e \<and> e \<in> set (a # post)))"

text \<open>\<open>reads_only printfun\<close>: the printing function leaves the heap as it is.\<close>

definition reads_only :: "(nat \<Rightarrow> heap \<times> 'w \<Rightarrow> heap \<times> 'w) \<Rightarrow> bool" where
  "reads_only printfun = (\<forall>a hp w. fst (printfun a (hp, w)) = hp)"

text \<open>
  \<open>cut_link h e\<close>: the heap \<open>h\<close> with a null link in the change at \<open>e\<close>.
\<close>

definition cut_link :: "heap \<Rightarrow> nat \<Rightarrow> heap" where
  "cut_link h e = (case h e of None \<Rightarrow> h | Some c \<Rightarrow> h(e \<mapsto> c\<lparr>link := None\<rparr>))"

text \<open>
  \<open>hunks hunkfun h ns\<close>: the chain \<open>ns\<close> divided into hunks.  The first hunk runs from
  the head of the chain up to the change that \<open>hunkfun\<close> returns for the head; the
  next hunk starts after it.
\<close>

function hunks :: "(heap \<Rightarrow> nat option \<Rightarrow> nat option) \<Rightarrow> heap \<Rightarrow> nat list \<Rightarrow> nat list list" where
  "hunks hunkfun h ns =
     (case ns of
        [] \<Rightarrow> []
      | a # rest \<Rightarrow>
          (case hunkfun h (Some a) of
             None \<Rightarrow> []
           | Some e \<Rightarrow>
               (takeWhile (\<lambda>x. x \<noteq> e) ns @ [e]) #
               hunks hunkfun h (tl (dropWhile (\<lambda>x. x \<noteq> e) ns))))"
  by pat_completeness auto
termination
proof (relation "measure (\<lambda>(hunkfun, h, ns). length ns)")
  show "wf (measure (\<lambda>(hunkfun, h, ns). length ns))"
    by simp
next
  fix hunkfun :: "heap \<Rightarrow> nat option \<Rightarrow> nat option" and h :: heap and ns :: "nat list"
    and a rest e
  assume ns: "ns = a # rest"
  have "length (dropWhile (\<lambda>x. x \<noteq> e) ns) \<le> length ns"
    by (rule length_dropWhile_le)
  then have "length (tl (dropWhile (\<lambda>x. x \<noteq> e) ns)) < length ns"
    using ns by (cases "dropWhile (\<lambda>x. x \<noteq> e) ns") auto
  then show "((hunkfun, h, tl (dropWhile (\<lambda>x. x \<noteq> e) ns)), (hunkfun, h, ns))
      \<in> measure (\<lambda>(hunkfun, h, ns). length ns)"
    by simp
qed

declare hunks.simps [simp del]

text \<open>
  \<open>hunk_call h seg\<close>: the call of the printing function for the hunk \<open>seg\<close>: its
  argument is the first change of the hunk, and the heap it is given is \<open>h\<close> with a
  null link in the last change of the hunk.  \<open>apply_calls printfun w cs\<close> is the
  state \<open>out\<close> after the calls \<open>cs\<close> made in order from \<open>w\<close>.
\<close>

definition hunk_call :: "heap \<Rightarrow> nat list \<Rightarrow> nat \<times> heap" where
  "hunk_call h seg = (hd seg, cut_link h (last seg))"

definition apply_calls :: "(nat \<Rightarrow> heap \<times> 'w \<Rightarrow> heap \<times> 'w) \<Rightarrow> 'w \<Rightarrow> (nat \<times> heap) list \<Rightarrow> 'w" where
  "apply_calls printfun w cs = foldl (\<lambda>w call. snd (printfun (fst call) (snd call, w))) w cs"

text \<open>
  \<open>is_hunk hunkfun h seg\<close>: \<open>seg\<close> ends at the change that \<open>hunkfun\<close> returns for its
  first change, and in the heap given to the printing function the links from the
  first change visit exactly \<open>seg\<close> and then reach a null link.
\<close>

definition is_hunk :: "(heap \<Rightarrow> nat option \<Rightarrow> nat option) \<Rightarrow> heap \<Rightarrow> nat list \<Rightarrow> bool" where
  "is_hunk hunkfun h seg =
     (seg \<noteq> [] \<and> hunkfun h (Some (hd seg)) = Some (last seg) \<and>
      chain (cut_link h (last seg)) (Some (hd seg)) seg)"

text \<open>
  Example values: a chain of three changes at the addresses 1, 2 and 3; a printing
  function that follows the links from its argument (at most 8 of them) in the heap
  it is given and records the addresses it visits; and a function for \<open>hunkfun\<close>
  that puts a change and its successor into one hunk.
\<close>

definition node :: "nat option \<Rightarrow> lin \<Rightarrow> change" where
  "node l i = \<lparr>link = l, inserted = 1, deleted = 1, line0 = i, line1 = i\<rparr>"

definition heap_example :: heap where
  "heap_example = [1 \<mapsto> node (Some 2) 0, 2 \<mapsto> node (Some 3) 4, 3 \<mapsto> node None 9]"

fun reach :: "heap \<Rightarrow> nat \<Rightarrow> nat option \<Rightarrow> nat list" where
  "reach h 0 p = []"
| "reach h (Suc n) None = []"
| "reach h (Suc n) (Some a) = a # (case h a of None \<Rightarrow> [] | Some c \<Rightarrow> reach h n (link c))"

definition show_hunk :: "nat \<Rightarrow> heap \<times> nat list list \<Rightarrow> heap \<times> nat list list" where
  "show_hunk this s = (fst s, snd s @ [reach (fst s) 8 (Some this)])"

definition pair_hunk :: "heap \<Rightarrow> nat option \<Rightarrow> nat option" where
  "pair_hunk h p =
     (case p of
        None \<Rightarrow> None
      | Some a \<Rightarrow>
          (case h a of
             None \<Rightarrow> None
           | Some c \<Rightarrow> (case link c of None \<Rightarrow> Some a | Some b \<Rightarrow> Some b)))"

section \<open>Properties\<close>

subsection \<open>Basic facts about the output stream\<close>

lemma written_fwrite:
  "room w = None \<Longrightarrow> written (fst (fwrite s w)) = written w @ s"
  by (simp add: fwrite_def written_def Let_def)

lemma room_fwrite:
  "room w = None \<Longrightarrow> room (fst (fwrite s w)) = None"
  by (simp add: fwrite_def Let_def)

lemma written_fprintf:
  "room w = None \<Longrightarrow> written (fst (fprintf s w)) = written w @ s"
  by (simp add: fprintf_def fwrite_def written_def Let_def)

lemma room_fprintf:
  "room w = None \<Longrightarrow> room (fst (fprintf s w)) = None"
  by (simp add: fprintf_def fwrite_def Let_def)

text \<open>For a scanner that keeps the promise of \<^verbatim>\<open>mcel.h\<close> the clamping changes nothing.\<close>

lemma scan_len_contract:
  "1 \<le> mc_len (mcel_scan cfg t) \<Longrightarrow> mc_len (mcel_scan cfg t) \<le> length t \<Longrightarrow>
   scan_len cfg t = mc_len (mcel_scan cfg t)"
  by (simp add: scan_len_def)

subsection \<open>Line numbers\<close>

text \<open>
  C4.  The displayed number of internal line \<open>i\<close> is \<open>i\<close> plus the file's prefix lines
  plus one, and \<^verbatim>\<open>translate_range\<close> maps the internal range \<open>(a, b)\<close> to
  \<open>(a + prefix_lines + 1, b + prefix_lines + 1)\<close>.
\<close>

theorem translate_line_number_range:
  "translate_line_number file i = i + prefix_lines file + 1 \<and>
   translate_range file a b = (a + prefix_lines file + 1, b + prefix_lines file + 1)"
  by (simp add: translate_line_number_def translate_range_def)

text \<open>
  C5.  On a stream that accepts the output, \<^verbatim>\<open>print_number_range\<close> appends one
  translated number when the range is a single line, and the two translated numbers
  with the separator between them when the range has more than one line.
\<close>

theorem print_number_range_one_or_two:
  "room w = None \<Longrightarrow>
   (a = b \<longrightarrow>
      written (print_number_range sepchar file a b w) =
        written w @ dec (translate_line_number file a)) \<and>
   (a < b \<longrightarrow>
      written (print_number_range sepchar file a b w) =
        written w @ dec (translate_line_number file a) @ [sepchar] @
          dec (translate_line_number file b))"
  by (simp add: print_number_range_def translate_range_def translate_line_number_def
      written_fprintf add.commute add.left_commute)

theorem print_number_range_one_or_two_witness:
  "room world_init = None \<and>
   written (print_number_range (CHR '','') \<lparr>prefix_lines = 10, linbuf = (\<lambda>i. [])\<rparr> 2 2 world_init)
     = ''13'' \<and>
   written (print_number_range (CHR '','') \<lparr>prefix_lines = 10, linbuf = (\<lambda>i. [])\<rparr> 2 5 world_init)
     = ''13,16''"
proof -
  have r: "room world_init = None"
    by (simp add: world_init_def)
  have w: "written world_init = []"
    by (simp add: world_init_def written_def)
  have d13: "dec 13 = ''13''" and d16: "dec 16 = ''16''"
    by code_simp+
  show ?thesis
    using print_number_range_one_or_two [OF r, of 2 2 "CHR '',''" "\<lparr>prefix_lines = 10, linbuf = (\<lambda>i. [])\<rparr>"]
      print_number_range_one_or_two [OF r, of 2 5 "CHR '',''" "\<lparr>prefix_lines = 10, linbuf = (\<lambda>i. [])\<rparr>"]
    by (simp add: r w d13 d16 translate_line_number_def)
qed

subsection \<open>The palette parser writes behind its read pointer\<close>

lemmas step_defs = gfs_step_def gnd_step_def backslash_step_def backslash_switch_def
        octal_step_def hex_step_def caret_step_def inc_p_def put_q_def Let_def

lemma gfs_step_q_mono: "fs_q s \<le> fs_q (gfs_step equals_end s)"
  by (cases "fs_state s") (auto simp: step_defs)

lemma gfs_step_account:
  "fs_q (gfs_step equals_end s) + fs_p s + slack (fs_state (gfs_step equals_end s))
     \<le> fs_p (gfs_step equals_end s) + fs_q s + slack (fs_state s)"
  by (cases "fs_state s") (auto simp: step_defs)

lemma peek_update_same: "peek (m[i := peek m i]) j = peek m j"
  by (cases "i < length m") (auto simp: peek_def nth_list_update)

lemma peek_update_other: "i \<noteq> j \<Longrightarrow> peek (m[i := c]) j = peek m j"
  by (auto simp: peek_def)

lemma gfs_step_behind:
  "fs_q s + slack (fs_state s) \<le> fs_p s \<Longrightarrow> fs_p s \<le> i \<Longrightarrow>
   peek (fs_mem (gfs_step equals_end s)) i = peek (fs_mem s) i"
  by (cases "fs_state s"; cases "fs_q s = i")
     (auto simp: step_defs peek_update_same peek_update_other)

lemma gfs_loop_q_mono: "fs_q s \<le> fs_q (gfs_loop equals_end s)"
proof (induction equals_end s rule: gfs_loop.induct)
  case (1 equals_end s)
  show ?case
  proof (cases "finished (fs_state s)")
    case True
    then show ?thesis by (simp add: gfs_loop.simps [of equals_end s])
  next
    case False
    have "fs_q s \<le> fs_q (gfs_step equals_end s)"
      by (rule gfs_step_q_mono)
    also have "\<dots> \<le> fs_q (gfs_loop equals_end (gfs_step equals_end s))"
      using False by (rule "1.IH")
    finally show ?thesis
      using False by (simp add: gfs_loop.simps [of equals_end s])
  qed
qed

lemma gfs_loop_finished: "finished (fs_state (gfs_loop equals_end s))"
proof (induction equals_end s rule: gfs_loop.induct)
  case (1 equals_end s)
  then show ?case
    by (cases "finished (fs_state s)") (simp_all add: gfs_loop.simps [of equals_end s])
qed

lemma gfs_loop_account:
  "fs_q (gfs_loop equals_end s) + fs_p s \<le> fs_p (gfs_loop equals_end s) + fs_q s + slack (fs_state s)"
proof (induction equals_end s rule: gfs_loop.induct)
  case (1 equals_end s)
  show ?case
  proof (cases "finished (fs_state s)")
    case True
    then show ?thesis by (simp add: gfs_loop.simps [of equals_end s])
  next
    case False
    let ?t = "gfs_step equals_end s"
    have ih: "fs_q (gfs_loop equals_end ?t) + fs_p ?t
                \<le> fs_p (gfs_loop equals_end ?t) + fs_q ?t + slack (fs_state ?t)"
      using False by (rule "1.IH")
    have st: "fs_q ?t + fs_p s + slack (fs_state ?t) \<le> fs_p ?t + fs_q s + slack (fs_state s)"
      by (rule gfs_step_account)
    have "gfs_loop equals_end s = gfs_loop equals_end ?t"
      using False by (simp add: gfs_loop.simps [of equals_end s])
    with ih st show ?thesis by simp
  qed
qed

lemma gfs_loop_funpow: "\<exists>n. gfs_loop equals_end s = (gfs_step equals_end ^^ n) s"
proof (induction equals_end s rule: gfs_loop.induct)
  case (1 equals_end s)
  show ?case
  proof (cases "finished (fs_state s)")
    case True
    then have "gfs_loop equals_end s = (gfs_step equals_end ^^ 0) s"
      by (simp add: gfs_loop.simps [of equals_end s])
    then show ?thesis by blast
  next
    case False
    then obtain n where "gfs_loop equals_end (gfs_step equals_end s) = (gfs_step equals_end ^^ n) (gfs_step equals_end s)"
      using "1.IH" by blast
    then have "gfs_loop equals_end s = (gfs_step equals_end ^^ Suc n) s"
      using False by (simp add: gfs_loop.simps [of equals_end s] funpow_swap1)
    then show ?thesis by blast
  qed
qed

lemma behind_step: "behind m t \<Longrightarrow> behind m (gfs_step equals_end t)"
proof -
  assume b: "behind m t"
  let ?u = "gfs_step equals_end t"
  have q: "fs_q t + slack (fs_state t) \<le> fs_p t"
    using b by (simp add: behind_def)
  have acc: "fs_q ?u + fs_p t + slack (fs_state ?u) \<le> fs_p ?u + fs_q t + slack (fs_state t)"
    by (rule gfs_step_account)
  have mono: "fs_p t \<le> fs_p ?u"
    by (rule gfs_step_p_mono)
  have "fs_q ?u + slack (fs_state ?u) \<le> fs_p ?u"
    using q acc by linarith
  moreover have "peek (fs_mem ?u) i = peek m i" if "fs_p ?u \<le> i" for i
  proof -
    have "fs_p t \<le> i" using that mono by linarith
    then show ?thesis
      using b gfs_step_behind [OF q, of i equals_end] by (simp add: behind_def)
  qed
  ultimately show ?thesis
    by (simp add: behind_def)
qed

lemma behind_funpow: "behind m t \<Longrightarrow> behind m ((gfs_step equals_end ^^ n) t)"
  by (induction n) (simp_all add: behind_step)

text \<open>
  C10.  \<^verbatim>\<open>get_funky_string\<close> advances \<^verbatim>\<open>*dest\<close> by no more than it advances
  \<^verbatim>\<open>*src\<close>.  When both point into the same buffer and \<^verbatim>\<open>*dest\<close> starts at or before
  \<^verbatim>\<open>*src\<close>, the same holds on return, the buffer keeps its length, the bytes from the
  final read pointer on are untouched, and after any number of iterations of the loop
  the write pointer is at or before the read pointer and the bytes not yet read are
  still those of the input.
\<close>

theorem get_funky_string_writes_behind:
  assumes "get_funky_string m dest src equals_end = (m', dest', src', ok)"
  shows "dest \<le> dest' \<and> src \<le> src' \<and> dest' - dest \<le> src' - src \<and>
         (dest \<le> src \<longrightarrow>
            dest' \<le> src' \<and> length m' = length m \<and>
            (\<forall>i. src' \<le> i \<longrightarrow> peek m' i = peek m i) \<and>
            (\<forall>n. behind m ((gfs_step equals_end ^^ n)
                   \<lparr>fs_state = ST_GND, fs_p = src, fs_q = dest, fs_num = NUL, fs_mem = m\<rparr>)))"
proof -
  let ?s = "\<lparr>fs_state = ST_GND, fs_p = src, fs_q = dest, fs_num = NUL, fs_mem = m\<rparr>"
  let ?r = "gfs_loop equals_end ?s"
  have r: "m' = fs_mem ?r" "dest' = fs_q ?r" "src' = fs_p ?r"
    using assms by (simp_all add: get_funky_string_def Let_def)
  have q: "dest \<le> dest'"
    using gfs_loop_q_mono [of ?s equals_end] r by simp
  have p: "src \<le> src'"
    using gfs_loop_p_mono [of ?s equals_end] r by simp
  have acc: "dest' + src \<le> src' + dest"
    using gfs_loop_account [of equals_end ?s] r by simp
  have count: "dest' - dest \<le> src' - src"
    using acc q p by linarith
  have inplace: "dest' \<le> src' \<and> length m' = length m \<and>
      (\<forall>i. src' \<le> i \<longrightarrow> peek m' i = peek m i) \<and>
      (\<forall>n. behind m ((gfs_step equals_end ^^ n) ?s))" if le: "dest \<le> src"
  proof -
    have b0: "behind m ?s"
      using le by (simp add: behind_def)
    have all: "behind m ((gfs_step equals_end ^^ n) ?s)" for n
      using b0 by (rule behind_funpow)
    obtain k where k: "?r = (gfs_step equals_end ^^ k) ?s"
      using gfs_loop_funpow by blast
    have br: "behind m ?r"
      using all [of k] k by simp
    have "dest' \<le> src'"
      using br r by (simp add: behind_def)
    moreover have "length m' = length m"
      using gfs_loop_length [of equals_end ?s] r by simp
    moreover have "\<forall>i. src' \<le> i \<longrightarrow> peek m' i = peek m i"
      using br r by (simp add: behind_def)
    ultimately show ?thesis
      using all by blast
  qed
  show ?thesis
    using q p count inplace by blast
qed

theorem get_funky_string_writes_behind_witness:
  "get_funky_string funky_example 0 0 False =
     ([CHR 0x1B, CHR ''['', CHR 0x7F, CHR ''?'', CHR ''?'', CHR '':'', CHR ''z''], 4, 5, True) \<and>
   (4::nat) - 0 \<le> 5 - 0 \<and>
   behind funky_example ((gfs_step False ^^ 3)
      \<lparr>fs_state = ST_GND, fs_p = 0, fs_q = 0, fs_num = NUL, fs_mem = funky_example\<rparr>)"
proof -
  have e: "get_funky_string funky_example 0 0 False =
     ([CHR 0x1B, CHR ''['', CHR 0x7F, CHR ''?'', CHR ''?'', CHR '':'', CHR ''z''], 4, 5, True)"
    by code_simp
  show ?thesis
    using get_funky_string_writes_behind [OF e] e by simp
qed

subsection \<open>A malformed palette is reported, not fatal\<close>

lemma error_0: "error 0 msg w = Inr (w\<lparr>stderr := stderr w @ [msg]\<rparr>)"
  by (simp add: error_def)

lemma pdc_step_returns: "\<exists>s'. pdc_step s = Inr s'"
  by (cases "ps_state s")
     (auto simp: pdc_step_def ps_3_step_def error_0 Let_def split: option.splits prod.splits)





subsection \<open>The palette is processed into itself behind the read pointer\<close>

text \<open>
  \<^verbatim>\<open>parse_diff_color\<close> starts with \<open>buf = p\<close>; every call of \<^verbatim>\<open>get_funky_string\<close>
  in it is made with \<open>buf\<close> at or before \<open>p\<close> and with the unread bytes intact.
\<close>

lemma gfs_loop_behind: "behind m s \<Longrightarrow> behind m (gfs_loop equals_end s)"
proof -
  assume b: "behind m s"
  obtain k where "gfs_loop equals_end s = (gfs_step equals_end ^^ k) s"
    using gfs_loop_funpow by blast
  then show ?thesis
    using behind_funpow [OF b, of k equals_end] by simp
qed

lemma pdc_behind_advance: "pdc_behind m0 s \<Longrightarrow> pdc_behind m0 (s\<lparr>ps_p := ps_p s + 1\<rparr>)"
  by (simp add: pdc_behind_def)

lemma pdc_funky_behind:
  assumes "pdc_behind m0 s"
  shows "pdc_behind m0 (fst (pdc_funky equals_end s))"
proof -
  let ?m = "palette_buf (ps_world s)"
  let ?s = "\<lparr>fs_state = ST_GND, fs_p = ps_p s, fs_q = ps_buf s, fs_num = NUL, fs_mem = ?m\<rparr>"
  let ?r = "gfs_loop equals_end ?s"
  have "behind ?m ?s"
    using assms by (simp add: behind_def pdc_behind_def)
  then have b: "behind ?m ?r"
    by (rule gfs_loop_behind)
  have mono: "ps_p s \<le> fs_p ?r"
    using gfs_loop_p_mono [of ?s equals_end] by simp
  have le: "fs_q ?r \<le> fs_p ?r"
    using b by (simp add: behind_def)
  have un: "peek (fs_mem ?r) i = peek m0 i" if "fs_p ?r \<le> i" for i
  proof -
    have "peek (fs_mem ?r) i = peek ?m i"
      using b that by (simp add: behind_def)
    moreover have "ps_p s \<le> i"
      using that mono by linarith
    ultimately show ?thesis
      using assms by (simp add: pdc_behind_def)
  qed
  show ?thesis
    using le un by (simp add: pdc_behind_def pdc_funky_def get_funky_string_def Let_def)
qed

lemma ps_start_step_behind:
  assumes "pdc_behind m0 s"
  shows "pdc_behind m0 (ps_start_step c s)"
proof -
  let ?a = "s\<lparr>ps_p := ps_p s + 1\<rparr>"
  obtain s' ok where so: "pdc_funky True ?a = (s', ok)"
    by (cases "pdc_funky True ?a")
  have "pdc_behind m0 (fst (pdc_funky True ?a))"
    by (rule pdc_funky_behind [OF pdc_behind_advance [OF assms]])
  then have "pdc_behind m0 s'"
    using so by simp
  then show ?thesis
    using assms so by (simp add: ps_start_step_def pdc_behind_def)
qed

lemma ps_2_step_behind:
  "pdc_behind m0 s \<Longrightarrow> pdc_behind m0 (ps_2_step c s)"
  by (simp add: ps_2_step_def pdc_behind_def)

lemma ps_3_step_behind:
  assumes "pdc_behind m0 s" and "ps_3_step c s = Inr t"
  shows "pdc_behind m0 t"
proof -
  let ?a = "s\<lparr>ps_state := PS_FAIL, ps_p := ps_p s + 1\<rparr>"
  obtain s' ok where so: "pdc_funky False ?a = (s', ok)"
    by (cases "pdc_funky False ?a")
  have a: "pdc_behind m0 ?a"
    using assms(1) by (simp add: pdc_behind_def)
  have "pdc_behind m0 (fst (pdc_funky False ?a))"
    by (rule pdc_funky_behind [OF a])
  then have "pdc_behind m0 s'"
    using so by simp
  then show ?thesis
    using assms so
    by (auto simp: ps_3_step_def pdc_behind_def error_0 Let_def set_indicator_def
        split: option.splits if_splits)
qed

lemma ps_4_step_behind:
  assumes "pdc_behind m0 s"
  shows "pdc_behind m0 (ps_4_step c s)"
proof -
  let ?a = "s\<lparr>ps_p := ps_p s + 1\<rparr>"
  obtain s' ok where so: "pdc_funky False ?a = (s', ok)"
    by (cases "pdc_funky False ?a")
  have "pdc_behind m0 (fst (pdc_funky False ?a))"
    by (rule pdc_funky_behind [OF pdc_behind_advance [OF assms]])
  then have "pdc_behind m0 s'"
    using so by simp
  then show ?thesis
    using assms so by (simp add: ps_4_step_def pdc_behind_def Let_def)
qed

lemma pdc_step_behind:
  assumes "pdc_behind m0 s" and "pdc_step s = Inr s'"
  shows "pdc_behind m0 s'"
  using assms
  by (cases "ps_state s")
     (auto simp: pdc_step_def ps_start_step_behind ps_2_step_behind ps_4_step_behind
        dest: ps_3_step_behind)

lemma pdc_loop_behind:
  "pdc_behind m0 s \<Longrightarrow> pdc_loop s = Inr s' \<Longrightarrow> pdc_behind m0 s'"
proof (induction s rule: pdc_loop.induct)
  case (1 s)
  show ?case
  proof (cases "at_done (ps_state s)")
    case True
    then show ?thesis
      using "1.prems" by (simp add: pdc_loop.simps [of s])
  next
    case False
    obtain t where t: "pdc_step s = Inr t"
      using pdc_step_returns by blast
    have "pdc_behind m0 t"
      using "1.prems"(1) t by (rule pdc_step_behind)
    moreover have "pdc_loop t = Inr s'"
      using False t "1.prems"(2) by (simp add: pdc_loop.simps [of s])
    ultimately show ?thesis
      using "1.IH" [OF False t] by blast
  qed
qed

lemma parse_diff_color_in_place:
  "pdc_loop (pdc_start p0 w) = Inr s \<Longrightarrow> pdc_behind (palette_buf w) s"
  by (rule pdc_loop_behind [of "palette_buf w" "pdc_start p0 w"])
     (simp_all add: pdc_behind_def pdc_start_def)

subsection \<open>Polling for signals while a line is written\<close>

lemma room_process_signals: "room (process_signals w) = room w"
  by (simp add: process_signals_def)

lemma written_process_signals: "written (process_signals w) = written w"
  by (simp add: process_signals_def written_def)

lemma snd_fwrite: "room w = None \<Longrightarrow> snd (fwrite s w) = length s"
  by (simp add: fwrite_def Let_def)

lemma putc_ok: "room w = None \<Longrightarrow> room (fst (putc c w)) = None \<and> snd (putc c w)"
  by (simp add: putc_def fwrite_def Let_def)

lemma fprintf_ok: "room w = None \<Longrightarrow> snd (fprintf s w)"
  by (simp add: fprintf_def fwrite_def Let_def)

lemma write_chunks_all:
  "room w = None \<Longrightarrow>
   room (write_chunks base w) = None \<and> written (write_chunks base w) = written w @ base"
proof (induction base w rule: write_chunks.induct)
  case (1 base w)
  show ?case
  proof (cases "base = []")
    case True
    then show ?thesis
      using "1.prems" by (simp add: write_chunks.simps [of "[]" w])
  next
    case False
    let ?n = "min (length base) MAX_CHUNK"
    let ?r = "fwrite (take ?n base) w"
    let ?w' = "process_signals (fst ?r)"
    have n: "snd ?r = ?n"
      using "1.prems" by (simp add: snd_fwrite)
    then have short: "\<not> snd ?r < ?n"
      by simp
    have unfold: "write_chunks base w =
        (if snd ?r < ?n then ?w' else write_chunks (drop (snd ?r) base) ?w')"
      using False by (subst write_chunks.simps) (simp add: Let_def)
    have eq: "write_chunks base w = write_chunks (drop ?n base) ?w'"
      using short n by (simp only: unfold if_False)
    have r': "room ?w' = None"
      using "1.prems" by (simp add: room_process_signals room_fwrite)
    have w': "written ?w' = written w @ take ?n base"
      using "1.prems" by (simp add: written_process_signals written_fwrite)
    have "room (write_chunks (drop (snd ?r) base) ?w') = None \<and>
          written (write_chunks (drop (snd ?r) base) ?w') = written ?w' @ drop (snd ?r) base"
      using "1.IH" [OF False refl refl refl short r'] .
    then show ?thesis
      using eq n w' by simp
  qed
qed

lemma put_spaces_room:
  "room w = None \<Longrightarrow> room (fst (put_spaces tab_size column w)) = None"
proof (induction tab_size column w rule: put_spaces.induct)
  case (1 tab_size column w)
  let ?r = "putc (CHR '' '') w"
  have ok: "room (fst ?r) = None" "snd ?r"
    using putc_ok [OF "1.prems"] by simp_all
  show ?case
  proof (cases "column + 1 < tab_size")
    case True
    then show ?thesis
      using ok "1.IH" [OF refl _ True ok(1)]
      by (simp add: put_spaces.simps [of tab_size column w] Let_def)
  next
    case False
    then show ?thesis
      using ok by (simp add: put_spaces.simps [of tab_size column w] Let_def)
  qed
qed

lemma expand_step_room:
  "room (xl_world s) = None \<Longrightarrow> room (world_of (expand_step cfg flag_format line_flag s)) = None"
  by (auto simp: expand_step_def count_iteration_def tab_case_def cr_case_def bs_case_def
      bs_put_def default_case_def world_of_def Let_def room_process_signals put_spaces_room
      putc_ok room_fprintf room_fwrite
      split: option.splits)

lemma expand_loop_room:
  "room (xl_world s) = None \<Longrightarrow> room (expand_loop cfg flag_format line_flag s) = None"
proof (induction cfg flag_format line_flag s rule: expand_loop.induct)
  case (1 cfg flag_format line_flag s)
  show ?case
  proof (cases "xl_t s = []")
    case True
    then show ?thesis
      using "1.prems" by (simp add: expand_loop.simps [of cfg flag_format line_flag s])
  next
    case False
    have r: "room (world_of (expand_step cfg flag_format line_flag s)) = None"
      using "1.prems" by (rule expand_step_room)
    show ?thesis
    proof (cases "expand_step cfg flag_format line_flag s")
      case (Inl w')
      then show ?thesis
        using False r by (simp add: expand_loop.simps [of cfg flag_format line_flag s] world_of_def)
    next
      case (Inr s')
      then have "room (xl_world s') = None"
        using r by (simp add: world_of_def)
      then have "room (expand_loop cfg flag_format line_flag s') = None"
        using "1.IH" [OF False Inr] by simp
      then show ?thesis
        using False Inr by (simp add: expand_loop.simps [of cfg flag_format line_flag s])
    qed
  qed
qed

lemma output_1_line_room:
  "room w = None \<Longrightarrow> room (output_1_line cfg str flag_format line_flag w) = None"
  by (simp add: output_1_line_def write_chunks_all expand_loop_room)

lemma trace_fwrite: "trace (fst (fwrite s w)) = trace w @ [Wrote (take (snd (fwrite s w)) s)]"
  by (simp add: fwrite_def Let_def)

lemma trace_process_signals: "trace (process_signals w) = trace w @ [Poll]"
  by (simp add: process_signals_def)

lemma chunked_append: "chunked a \<Longrightarrow> chunked b \<Longrightarrow> chunked (a @ b)"
  by (induction a rule: chunked.induct) simp_all

lemma write_chunks_chunked:
  "\<exists>tr. trace (write_chunks base w) = trace w @ tr \<and> chunked tr"
proof (induction base w rule: write_chunks.induct)
  case (1 base w)
  show ?case
  proof (cases "base = []")
    case True
    then show ?thesis
      by (simp add: write_chunks.simps [of "[]" w])
  next
    case False
    let ?n = "min (length base) MAX_CHUNK"
    let ?r = "fwrite (take ?n base) w"
    let ?w' = "process_signals (fst ?r)"
    let ?ev = "[Wrote (take (snd ?r) (take ?n base)), Poll]"
    have tr: "trace ?w' = trace w @ ?ev"
      by (simp add: trace_process_signals trace_fwrite)
    have ch: "chunked ?ev"
      by simp
    have unfold: "write_chunks base w =
        (if snd ?r < ?n then ?w' else write_chunks (drop (snd ?r) base) ?w')"
      using False by (subst write_chunks.simps) (simp add: Let_def)
    show ?thesis
    proof (cases "snd ?r < ?n")
      case True
      then have "write_chunks base w = ?w'"
        by (simp only: unfold if_True)
      then show ?thesis
        using tr ch by metis
    next
      case short: False
      then have eq: "write_chunks base w = write_chunks (drop (snd ?r) base) ?w'"
        by (simp only: unfold if_False)
      obtain tr' where tr': "trace (write_chunks (drop (snd ?r) base) ?w') = trace ?w' @ tr'"
        and ch': "chunked tr'"
        using "1.IH" [OF False refl refl refl short] by blast
      have "trace (write_chunks base w) = trace w @ (?ev @ tr')"
        using eq tr tr' by simp
      moreover have "chunked (?ev @ tr')"
        using ch ch' by (rule chunked_append)
      ultimately show ?thesis by blast
    qed
  qed
qed

lemma paced_writes:
  "k < MAX_CHUNK \<Longrightarrow> list_all is_wrote ws \<Longrightarrow> paced k (ws @ r) = paced k r"
proof (induction ws)
  case Nil
  then show ?case by simp
next
  case (Cons e ws)
  then show ?case by (cases e) simp_all
qed

lemma trace_putc: "\<exists>s. trace (fst (putc c w)) = trace w @ [Wrote s]"
  by (simp add: putc_def fwrite_def Let_def)

lemma trace_fprintf: "\<exists>t. trace (fst (fprintf s w)) = trace w @ [Wrote t]"
  by (simp add: fprintf_def fwrite_def Let_def)

lemma put_spaces_writes:
  "\<exists>ws. trace (fst (put_spaces tab_size column w)) = trace w @ ws \<and> list_all is_wrote ws"
proof (induction tab_size column w rule: put_spaces.induct)
  case (1 tab_size column w)
  let ?r = "putc (CHR '' '') w"
  obtain s where s: "trace (fst ?r) = trace w @ [Wrote s]"
    using trace_putc by blast
  show ?case
  proof (cases "snd ?r \<and> column + 1 < tab_size")
    case True
    then obtain ws where "trace (fst (put_spaces tab_size (column + 1) (fst ?r))) = trace (fst ?r) @ ws"
      and "list_all is_wrote ws"
      using "1.IH" [OF refl] by blast
    then have "trace (fst (put_spaces tab_size column w)) = trace w @ (Wrote s # ws) \<and>
               list_all is_wrote (Wrote s # ws)"
      using True s by (simp add: put_spaces.simps [of tab_size column w] Let_def)
    then show ?thesis by blast
  next
    case False
    then have "trace (fst (put_spaces tab_size column w)) = trace w @ [Wrote s] \<and>
               list_all is_wrote [Wrote s]"
      using s by (auto simp: put_spaces.simps [of tab_size column w] Let_def)
    then show ?thesis by blast
  qed
qed

lemma tab_case_writes: "writes_only s (tab_case tab_size s)"
  using put_spaces_writes [of tab_size "xl_column s" "xl_world s"]
  by (auto simp: writes_only_def world_of_def tab_case_def Let_def)

lemma bs_put_writes: "xl_world s = xl_world s0 \<Longrightarrow> xl_counter s = xl_counter s0 \<Longrightarrow>
  writes_only s0 (bs_put s)"
  using trace_putc [of BS "xl_world s"]
  by (auto simp: writes_only_def world_of_def bs_put_def Let_def)

lemma bs_case_writes: "writes_only s (bs_case tab_size s)"
proof -
  have "writes_only s (Inr (s\<lparr>xl_t := tl (xl_t s)\<rparr>))"
    by (simp add: writes_only_def world_of_def)
  then show ?thesis
    by (simp add: bs_case_def Let_def bs_put_writes)
qed

lemma default_case_writes: "writes_only s (default_case cfg tab_size s)"
  by (auto simp: writes_only_def world_of_def default_case_def Let_def trace_fwrite)

lemma cr_case_writes: "writes_only s (cr_case flag_format line_flag s)"
proof -
  let ?r = "putc CR (xl_world s)"
  obtain a where a: "trace (fst ?r) = trace (xl_world s) @ [Wrote a]"
    using trace_putc by blast
  have b: "\<exists>b. trace (fst (fprintf x (fst ?r))) = trace (xl_world s) @ [Wrote a, Wrote b]" for x
    using trace_fprintf [of x "fst ?r"] a by auto
  show ?thesis
  proof (cases flag_format)
    case None
    then show ?thesis
      using a by (auto simp: writes_only_def world_of_def cr_case_def Let_def)
  next
    case (Some fmt)
    obtain c where c: "trace (fst (fprintf (sprintf_s fmt line_flag) (fst ?r))) =
        trace (xl_world s) @ [Wrote a, Wrote c]"
      using b by blast
    show ?thesis
      using Some a c by (auto simp: writes_only_def world_of_def cr_case_def Let_def)
  qed
qed

lemma expand_case_writes:
  "writes_only s
     (if hd (xl_t s) = TAB then tab_case (tabsize cfg) s
      else if hd (xl_t s) = CR then cr_case flag_format line_flag s
      else if hd (xl_t s) = BS then bs_case (tabsize cfg) s
      else default_case cfg (tabsize cfg) s)"
  by (simp add: tab_case_writes cr_case_writes bs_case_writes default_case_writes)

lemma expand_step_paced:
  assumes c: "0 \<le> xl_counter s" "xl_counter s < int MAX_CHUNK"
  shows "\<exists>ev c'. trace (world_of (expand_step cfg flag_format line_flag s)) =
                    trace (xl_world s) @ ev \<and>
                  0 \<le> c' \<and> c' < int MAX_CHUNK \<and>
                  (\<forall>r. paced (nat (xl_counter s)) (ev @ r) = paced (nat c') r) \<and>
                  (\<forall>s'. expand_step cfg flag_format line_flag s = Inr s' \<longrightarrow> xl_counter s' = c')"
proof -
  let ?s1 = "count_iteration s"
  let ?res = "expand_step cfg flag_format line_flag s"
  have res: "?res =
     (if hd (xl_t ?s1) = TAB then tab_case (tabsize cfg) ?s1
      else if hd (xl_t ?s1) = CR then cr_case flag_format line_flag ?s1
      else if hd (xl_t ?s1) = BS then bs_case (tabsize cfg) ?s1
      else default_case cfg (tabsize cfg) ?s1)"
    by (simp add: expand_step_def Let_def)
  have wo: "writes_only ?s1 ?res"
    unfolding res by (rule expand_case_writes)
  then obtain ws where ws: "trace (world_of ?res) = trace (xl_world ?s1) @ ws"
    and only: "list_all is_wrote ws"
    and keep: "\<forall>s'. ?res = Inr s' \<longrightarrow> xl_counter s' = xl_counter ?s1"
    by (auto simp: writes_only_def)
  show ?thesis
  proof (cases "xl_counter s + 1 = int MAX_CHUNK")
    case True
    have t1: "trace (xl_world ?s1) = trace (xl_world s) @ [Iter, Poll]"
      and c1: "xl_counter ?s1 = 0"
      using True by (simp_all add: count_iteration_def Let_def process_signals_def)
    have k: "Suc (nat (xl_counter s)) = MAX_CHUNK" "nat (xl_counter s) < MAX_CHUNK"
      using True c by linarith+
    have "paced (nat (xl_counter s)) (([Iter, Poll] @ ws) @ r) = paced (nat 0) r" for r
      using k paced_writes [OF _ only, of 0 r] by (simp add: MAX_CHUNK_def)
    then show ?thesis
      using ws t1 c1 keep by (intro exI [of _ "[Iter, Poll] @ ws"] exI [of _ 0]) (simp add: MAX_CHUNK_def)
  next
    case False
    have t1: "trace (xl_world ?s1) = trace (xl_world s) @ [Iter]"
      and c1: "xl_counter ?s1 = xl_counter s + 1"
      using False by (simp_all add: count_iteration_def Let_def)
    have k: "nat (xl_counter s + 1) = Suc (nat (xl_counter s))" "nat (xl_counter s + 1) < MAX_CHUNK"
      "nat (xl_counter s) < MAX_CHUNK"
      using False c by linarith+
    have "paced (nat (xl_counter s)) (([Iter] @ ws) @ r) = paced (nat (xl_counter s + 1)) r" for r
      using k paced_writes [OF k(2) only, of r] by simp
    moreover have "0 \<le> xl_counter s + 1" "xl_counter s + 1 < int MAX_CHUNK"
      using False c by linarith+
    ultimately show ?thesis
      using ws t1 c1 keep
      by (intro exI [of _ "[Iter] @ ws"] exI [of _ "xl_counter s + 1"]) simp
  qed
qed

lemma expand_loop_paced:
  "0 \<le> xl_counter s \<Longrightarrow> xl_counter s < int MAX_CHUNK \<Longrightarrow>
   \<exists>tr. trace (expand_loop cfg flag_format line_flag s) = trace (xl_world s) @ tr \<and>
        paced (nat (xl_counter s)) tr"
proof (induction cfg flag_format line_flag s rule: expand_loop.induct)
  case (1 cfg flag_format line_flag s)
  show ?case
  proof (cases "xl_t s = []")
    case True
    then show ?thesis
      by (simp add: expand_loop.simps [of cfg flag_format line_flag s])
  next
    case False
    let ?res = "expand_step cfg flag_format line_flag s"
    obtain ev c' where ev: "trace (world_of ?res) = trace (xl_world s) @ ev"
      and c': "0 \<le> c'" "c' < int MAX_CHUNK"
      and pc: "\<forall>r. paced (nat (xl_counter s)) (ev @ r) = paced (nat c') r"
      and cnt: "\<forall>s'. ?res = Inr s' \<longrightarrow> xl_counter s' = c'"
      using expand_step_paced [OF "1.prems", of cfg flag_format line_flag] by blast
    show ?thesis
    proof (cases ?res)
      case (Inl w')
      then have "expand_loop cfg flag_format line_flag s = w'"
        using False by (simp add: expand_loop.simps [of cfg flag_format line_flag s])
      moreover have "trace w' = trace (xl_world s) @ ev"
        using ev Inl by (simp add: world_of_def)
      moreover have "paced (nat (xl_counter s)) ev"
        using pc [rule_format, of "[]"] by simp
      ultimately show ?thesis by simp
    next
      case (Inr s')
      then have eq: "expand_loop cfg flag_format line_flag s = expand_loop cfg flag_format line_flag s'"
        using False by (simp add: expand_loop.simps [of cfg flag_format line_flag s])
      have cs: "xl_counter s' = c'"
        using cnt Inr by simp
      obtain tr where tr: "trace (expand_loop cfg flag_format line_flag s') = trace (xl_world s') @ tr"
        and ptr: "paced (nat (xl_counter s')) tr"
        using "1.IH" [OF False Inr] c' cs by auto
      have "trace (xl_world s') = trace (xl_world s) @ ev"
        using ev Inr by (simp add: world_of_def)
      then have "trace (expand_loop cfg flag_format line_flag s) = trace (xl_world s) @ (ev @ tr)"
        using eq tr by simp
      moreover have "paced (nat (xl_counter s)) (ev @ tr)"
        using pc ptr cs by simp
      ultimately show ?thesis by blast
    qed
  qed
qed

lemma chunked_bounded_gaps: "chunked tr \<Longrightarrow> bounded_gaps MAX_CHUNK 0 tr"
  by (induction tr rule: chunked.induct) simp_all

lemma polls_append: "polls (a @ b) = polls a + polls b"
  by (simp add: polls_def)

lemma iters_append: "iters (a @ b) = iters a + iters b"
  by (simp add: iters_def)

lemma nbytes_append: "nbytes (a @ b) = nbytes a + nbytes b"
  by (simp add: nbytes_def)

lemma chunk_count:
  "0 < l \<Longrightarrow> Suc ((l - min l MAX_CHUNK + (MAX_CHUNK - 1)) div MAX_CHUNK) = (l + (MAX_CHUNK - 1)) div MAX_CHUNK"
proof (cases "l \<le> MAX_CHUNK")
  case True
  assume "0 < l"
  then have l: "0 < l" .
  have "(l + (MAX_CHUNK - 1)) div MAX_CHUNK = 1"
    by (rule div_nat_eqI) (use True l in \<open>simp_all add: MAX_CHUNK_def\<close>)
  then show ?thesis
    using True by (simp add: MAX_CHUNK_def)
next
  case False
  then have "l - min l MAX_CHUNK + (MAX_CHUNK - 1) + MAX_CHUNK = l + (MAX_CHUNK - 1)"
    by (simp add: MAX_CHUNK_def)
  then have "(l + (MAX_CHUNK - 1)) div MAX_CHUNK =
      (l - min l MAX_CHUNK + (MAX_CHUNK - 1) + MAX_CHUNK) div MAX_CHUNK"
    by simp
  also have "\<dots> = Suc ((l - min l MAX_CHUNK + (MAX_CHUNK - 1)) div MAX_CHUNK)"
    by (simp add: MAX_CHUNK_def)
  finally show ?thesis by simp
qed

lemma write_chunks_polls:
  "room w = None \<Longrightarrow>
   \<exists>tr. trace (write_chunks base w) = trace w @ tr \<and>
        polls tr = (length base + (MAX_CHUNK - 1)) div MAX_CHUNK \<and>
        concat (map bytes_of tr) = base"
proof (induction base w rule: write_chunks.induct)
  case (1 base w)
  show ?case
  proof (cases "base = []")
    case True
    then show ?thesis
      by (simp add: write_chunks.simps [of "[]" w] polls_def MAX_CHUNK_def)
  next
    case False
    let ?n = "min (length base) MAX_CHUNK"
    let ?r = "fwrite (take ?n base) w"
    let ?w' = "process_signals (fst ?r)"
    have n: "snd ?r = ?n"
      using "1.prems" by (simp add: snd_fwrite)
    then have short: "\<not> snd ?r < ?n"
      by simp
    have unfold: "write_chunks base w =
        (if snd ?r < ?n then ?w' else write_chunks (drop (snd ?r) base) ?w')"
      using False by (subst write_chunks.simps) (simp add: Let_def)
    have eq: "write_chunks base w = write_chunks (drop ?n base) ?w'"
      using short n by (simp only: unfold if_False)
    have r': "room ?w' = None"
      using "1.prems" by (simp add: room_process_signals room_fwrite)
    have tr: "trace ?w' = trace w @ [Wrote (take ?n base), Poll]"
      using n by (simp add: trace_process_signals trace_fwrite)
    obtain tr' where tr': "trace (write_chunks (drop (snd ?r) base) ?w') = trace ?w' @ tr'"
      and p': "polls tr' = (length (drop (snd ?r) base) + (MAX_CHUNK - 1)) div MAX_CHUNK"
      and c': "concat (map bytes_of tr') = drop (snd ?r) base"
      using "1.IH" [OF False refl refl refl short r'] by blast
    have l: "0 < length base"
      using False by simp
    have "trace (write_chunks base w) = trace w @ ([Wrote (take ?n base), Poll] @ tr')"
      using eq tr tr' n by simp
    moreover have "polls ([Wrote (take ?n base), Poll] @ tr') =
        (length base + (MAX_CHUNK - 1)) div MAX_CHUNK"
      using p' n chunk_count [OF l] by (simp add: polls_def)
    moreover have "concat (map bytes_of ([Wrote (take ?n base), Poll] @ tr')) = base"
      using c' n by simp
    ultimately show ?thesis by blast
  qed
qed

lemma expand_step_shape:
  "\<exists>ws. trace (world_of (expand_step cfg flag_format line_flag s)) =
          trace (xl_world s) @ Iter # (if xl_counter s + 1 = int MAX_CHUNK then [Poll] else []) @ ws \<and>
        list_all is_wrote ws \<and>
        (\<forall>s'. expand_step cfg flag_format line_flag s = Inr s' \<longrightarrow>
              xl_counter s' = (if xl_counter s + 1 = int MAX_CHUNK then 0 else xl_counter s + 1))"
proof -
  let ?s1 = "count_iteration s"
  let ?res = "expand_step cfg flag_format line_flag s"
  have res: "?res =
     (if hd (xl_t ?s1) = TAB then tab_case (tabsize cfg) ?s1
      else if hd (xl_t ?s1) = CR then cr_case flag_format line_flag ?s1
      else if hd (xl_t ?s1) = BS then bs_case (tabsize cfg) ?s1
      else default_case cfg (tabsize cfg) ?s1)"
    by (simp add: expand_step_def Let_def)
  have wo: "writes_only ?s1 ?res"
    unfolding res by (rule expand_case_writes)
  then obtain ws where ws: "trace (world_of ?res) = trace (xl_world ?s1) @ ws"
    and only: "list_all is_wrote ws"
    and keep: "\<forall>s'. ?res = Inr s' \<longrightarrow> xl_counter s' = xl_counter ?s1"
    by (auto simp: writes_only_def)
  have t1: "trace (xl_world ?s1) =
      trace (xl_world s) @ Iter # (if xl_counter s + 1 = int MAX_CHUNK then [Poll] else [])"
    and c1: "xl_counter ?s1 = (if xl_counter s + 1 = int MAX_CHUNK then 0 else xl_counter s + 1)"
    by (simp_all add: count_iteration_def Let_def process_signals_def)
  show ?thesis
    using ws only keep t1 c1 by (intro exI [of _ ws]) simp
qed

lemma polls_writes: "list_all is_wrote ws \<Longrightarrow> polls ws = 0"
proof (induction ws)
  case Nil
  then show ?case by (simp add: polls_def)
next
  case (Cons e ws)
  then show ?case by (cases e) (simp_all add: polls_def)
qed

lemma iters_writes: "list_all is_wrote ws \<Longrightarrow> iters ws = 0"
proof (induction ws)
  case Nil
  then show ?case by (simp add: iters_def)
next
  case (Cons e ws)
  then show ?case by (cases e) (simp_all add: iters_def)
qed

lemma bounded_gaps_writes:
  "list_all is_wrote ws \<Longrightarrow> bounded_gaps B n (ws @ r) = bounded_gaps B (n + nbytes ws) r"
proof (induction ws arbitrary: n)
  case Nil
  then show ?case by (simp add: nbytes_def)
next
  case (Cons e ws)
  then show ?case by (cases e) (simp_all add: nbytes_def add.assoc)
qed

lemma bounded_gaps_mono: "bounded_gaps B n r \<Longrightarrow> m \<le> n \<Longrightarrow> bounded_gaps B m r"
proof (induction B n r arbitrary: m rule: bounded_gaps.induct)
  case (1 B n)
  then show ?case by simp
next
  case (2 B n r)
  then show ?case by simp
next
  case (3 B n s r)
  then show ?case by (simp add: "3.IH" [of "m + length s"])
next
  case (4 B n r)
  then show ?case by simp
qed

lemma put_spaces_ok: "room w = None \<Longrightarrow> snd (put_spaces tab_size column w)"
proof (induction tab_size column w rule: put_spaces.induct)
  case (1 tab_size column w)
  let ?r = "putc (CHR '' '') w"
  have ok: "room (fst ?r) = None" "snd ?r"
    using putc_ok [OF "1.prems"] by simp_all
  show ?case
  proof (cases "column + 1 < tab_size")
    case True
    then show ?thesis
      using ok "1.IH" [OF refl _ True ok(1)]
      by (simp add: put_spaces.simps [of tab_size column w] Let_def)
  next
    case False
    then show ?thesis
      using ok by (simp add: put_spaces.simps [of tab_size column w] Let_def)
  qed
qed

lemma expand_step_ok:
  assumes "room (xl_world s) = None" and "xl_t s \<noteq> []"
  shows "\<exists>s'. expand_step cfg flag_format line_flag s = Inr s' \<and>
              xl_t s' = drop (step_len cfg (xl_t s)) (xl_t s) \<and> room (xl_world s') = None"
proof -
  let ?s1 = "count_iteration s"
  have r1: "room (xl_world ?s1) = None" and t1: "xl_t ?s1 = xl_t s"
    using assms(1) by (simp_all add: count_iteration_def Let_def process_signals_def)
  have tl: "tl (xl_t s) = drop 1 (xl_t s)"
    by (simp add: drop_Suc)
  have mn: "min (length (xl_t s)) (scan_len cfg (xl_t s)) = scan_len cfg (xl_t s)"
    by (simp add: scan_len_def)
  show ?thesis
    using r1 t1 tl mn put_spaces_ok [OF r1] put_spaces_room [OF r1] putc_ok [OF r1]
    by (auto simp: expand_step_def tab_case_def cr_case_def bs_case_def bs_put_def
        default_case_def step_len_def Let_def putc_ok fprintf_ok room_fprintf room_fwrite snd_fwrite
        split: option.splits)
qed

lemma poll_count:
  "0 \<le> c \<Longrightarrow> c < int MAX_CHUNK \<Longrightarrow>
   (if c + 1 = int MAX_CHUNK then 1 else 0) +
     (nat (if c + 1 = int MAX_CHUNK then 0 else c + 1) + n) div MAX_CHUNK =
   (nat c + Suc n) div MAX_CHUNK"
  unfolding MAX_CHUNK_def
proof (cases "c + 1 = 1024")
  case True
  then have "nat c = 1023" by simp
  then show "(if c + 1 = int 1024 then 1 else 0) +
     (nat (if c + 1 = int 1024 then 0 else c + 1) + n) div 1024 = (nat c + Suc n) div 1024"
    using True by simp
next
  case False
  then have "nat (c + 1) + n = nat c + Suc n" if "0 \<le> c"
    using that by simp
  then show "0 \<le> c \<Longrightarrow> (if c + 1 = int 1024 then 1 else 0) +
     (nat (if c + 1 = int 1024 then 0 else c + 1) + n) div 1024 = (nat c + Suc n) div 1024"
    using False by simp
qed

lemma expand_loop_counts:
  "room (xl_world s) = None \<Longrightarrow> 0 \<le> xl_counter s \<Longrightarrow> xl_counter s < int MAX_CHUNK \<Longrightarrow>
   \<exists>tr. trace (expand_loop cfg flag_format line_flag s) = trace (xl_world s) @ tr \<and>
        iters tr = iterations cfg (xl_t s) \<and>
        polls tr = (nat (xl_counter s) + iterations cfg (xl_t s)) div MAX_CHUNK"
proof (induction cfg flag_format line_flag s rule: expand_loop.induct)
  case (1 cfg flag_format line_flag s)
  show ?case
  proof (cases "xl_t s = []")
    case True
    have "nat (xl_counter s) div MAX_CHUNK = 0"
      using "1.prems" by simp
    then show ?thesis
      using True
      by (simp add: expand_loop.simps [of cfg flag_format line_flag s] iterations.simps [of cfg "[]"]
          iters_def polls_def)
  next
    case False
    let ?res = "expand_step cfg flag_format line_flag s"
    let ?P = "if xl_counter s + 1 = int MAX_CHUNK then [Poll] else []"
    let ?c' = "if xl_counter s + 1 = int MAX_CHUNK then 0 else xl_counter s + 1"
    obtain s' where s': "?res = Inr s'"
      and ts': "xl_t s' = drop (step_len cfg (xl_t s)) (xl_t s)"
      and rs': "room (xl_world s') = None"
      using expand_step_ok [OF "1.prems"(1) False] by blast
    obtain ws where ws: "trace (world_of ?res) = trace (xl_world s) @ Iter # ?P @ ws"
      and only: "list_all is_wrote ws"
      and cnt: "xl_counter s' = ?c'"
      using expand_step_shape [of cfg flag_format line_flag s] s' by auto
    have c': "0 \<le> xl_counter s'" "xl_counter s' < int MAX_CHUNK"
      using cnt "1.prems" by (auto simp: MAX_CHUNK_def)
    obtain tr where tr: "trace (expand_loop cfg flag_format line_flag s') = trace (xl_world s') @ tr"
      and it: "iters tr = iterations cfg (xl_t s')"
      and po: "polls tr = (nat (xl_counter s') + iterations cfg (xl_t s')) div MAX_CHUNK"
      using "1.IH" [OF False s' rs' c'] by blast
    have eq: "expand_loop cfg flag_format line_flag s = expand_loop cfg flag_format line_flag s'"
      using False s' by (simp add: expand_loop.simps [of cfg flag_format line_flag s])
    have n: "iterations cfg (xl_t s) = Suc (iterations cfg (xl_t s'))"
      using False ts' by (simp add: iterations.simps [of cfg "xl_t s"])
    have w': "trace (xl_world s') = trace (xl_world s) @ Iter # ?P @ ws"
      using ws s' by (simp add: world_of_def)
    have "trace (expand_loop cfg flag_format line_flag s) =
        trace (xl_world s) @ ((Iter # ?P @ ws) @ tr)"
      using eq tr w' by simp
    moreover have "iters ((Iter # ?P @ ws) @ tr) = iterations cfg (xl_t s)"
      using it n iters_writes [OF only] by (simp add: iters_append) (simp add: iters_def)
    moreover have "polls ((Iter # ?P @ ws) @ tr) =
        (nat (xl_counter s) + iterations cfg (xl_t s)) div MAX_CHUNK"
    proof -
      have "polls ((Iter # ?P @ ws) @ tr) =
          (if xl_counter s + 1 = int MAX_CHUNK then 1 else 0) + polls tr"
        using polls_writes [OF only] by (simp add: polls_append) (simp add: polls_def)
      then show ?thesis
        using po cnt n poll_count [OF "1.prems"(2) "1.prems"(3), of "iterations cfg (xl_t s')"]
        by simp
    qed
    ultimately show ?thesis by blast
  qed
qed


lemma trace_putc_le: "\<exists>s. trace (fst (putc c w)) = trace w @ [Wrote s] \<and> length s \<le> 1"
  by (simp add: putc_def fwrite_def Let_def)

lemma trace_fprintf_le:
  "\<exists>t. trace (fst (fprintf s w)) = trace w @ [Wrote t] \<and> length t \<le> length s"
  by (simp add: fprintf_def fwrite_def Let_def)

lemma put_spaces_bytes:
  "\<exists>ws. trace (fst (put_spaces tab_size column w)) = trace w @ ws \<and> list_all is_wrote ws \<and>
        nbytes ws \<le> (if column + 1 < tab_size then nat (tab_size - column) else 1)"
proof (induction tab_size column w rule: put_spaces.induct)
  case (1 tab_size column w)
  let ?r = "putc (CHR '' '') w"
  obtain s where s: "trace (fst ?r) = trace w @ [Wrote s]" and ls: "length s \<le> 1"
    using trace_putc_le by blast
  show ?case
  proof (cases "snd ?r \<and> column + 1 < tab_size")
    case True
    then obtain ws where ws: "trace (fst (put_spaces tab_size (column + 1) (fst ?r))) = trace (fst ?r) @ ws"
      and only: "list_all is_wrote ws"
      and nb: "nbytes ws \<le> (if column + 1 + 1 < tab_size then nat (tab_size - (column + 1)) else 1)"
      using "1.IH" [OF refl] by blast
    have "nbytes (Wrote s # ws) \<le> nat (tab_size - column)"
      using nb ls True by (auto simp: nbytes_def split: if_splits)
    then have "trace (fst (put_spaces tab_size column w)) = trace w @ (Wrote s # ws) \<and>
               list_all is_wrote (Wrote s # ws) \<and>
               nbytes (Wrote s # ws) \<le> (if column + 1 < tab_size then nat (tab_size - column) else 1)"
      using True s ws only by (simp add: put_spaces.simps [of tab_size column w] Let_def)
    then show ?thesis by blast
  next
    case False
    have "1 \<le> nat (tab_size - column)" if "column + 1 < tab_size"
      using that by linarith
    then have "nbytes [Wrote s] \<le> (if column + 1 < tab_size then nat (tab_size - column) else 1)"
      using ls by (auto simp: nbytes_def)
    moreover have "trace (fst (put_spaces tab_size column w)) = trace w @ [Wrote s]"
      using False s by (auto simp: put_spaces.simps [of tab_size column w] Let_def)
    ultimately have "trace (fst (put_spaces tab_size column w)) = trace w @ [Wrote s] \<and>
               list_all is_wrote [Wrote s] \<and>
               nbytes [Wrote s] \<le> (if column + 1 < tab_size then nat (tab_size - column) else 1)"
      by simp
    then show ?thesis by blast
  qed
qed

lemma c_mod_range: "0 < b \<Longrightarrow> - b < c_mod a b \<and> c_mod a b < b"
proof (cases "a < 0")
  case True
  assume b: "0 < b"
  have "c_mod a b = - ((- a) mod b)"
    using True b by (simp add: c_mod_def c_div_def minus_mult_div_eq_mod [symmetric] algebra_simps)
  moreover have "0 \<le> (- a) mod b" "(- a) mod b < b"
    using b by simp_all
  ultimately show ?thesis by linarith
next
  case False
  assume b: "0 < b"
  have "c_mod a b = a mod b"
    using False b by (simp add: c_mod_def c_div_def minus_mult_div_eq_mod)
  moreover have "0 \<le> a mod b" "a mod b < b"
    using b by simp_all
  ultimately show ?thesis by linarith
qed

lemma tab_case_within:
  assumes "0 < ts" and "- ts < xl_column s" and "nat (2 * ts) \<le> B"
  shows "within B ts s (tab_case ts s)"
proof -
  obtain ws where ws: "trace (fst (put_spaces ts (xl_column s) (xl_world s))) = trace (xl_world s) @ ws"
    and only: "list_all is_wrote ws"
    and nb: "nbytes ws \<le> (if xl_column s + 1 < ts then nat (ts - xl_column s) else 1)"
    using put_spaces_bytes by blast
  have "(if xl_column s + 1 < ts then nat (ts - xl_column s) else 1) \<le> nat (2 * ts)"
    using assms(1,2) by auto
  then have "nbytes ws \<le> B"
    using nb assms(3) by linarith
  then show ?thesis
    using ws only assms(1) by (auto simp: within_def world_of_def tab_case_def Let_def)
qed

lemma cr_case_within:
  assumes "0 < ts"
    and "1 + (case flag_format of None \<Rightarrow> 0 | Some fmt \<Rightarrow> length (sprintf_s fmt line_flag)) \<le> B"
  shows "within B ts s (cr_case flag_format line_flag s)"
proof -
  let ?r = "putc CR (xl_world s)"
  obtain a where a: "trace (fst ?r) = trace (xl_world s) @ [Wrote a]" and la: "length a \<le> 1"
    using trace_putc_le by blast
  show ?thesis
  proof (cases flag_format)
    case None
    then show ?thesis
      using a la assms by (auto simp: within_def world_of_def cr_case_def Let_def nbytes_def)
  next
    case (Some fmt)
    obtain c where c: "trace (fst (fprintf (sprintf_s fmt line_flag) (fst ?r))) =
        trace (fst ?r) @ [Wrote c]" and lc: "length c \<le> length (sprintf_s fmt line_flag)"
      using trace_fprintf_le by blast
    have b1: "nbytes [Wrote a] \<le> B" and b2: "nbytes [Wrote a, Wrote c] \<le> B"
      using la lc assms(2) Some by (simp_all add: nbytes_def)
    have t2: "trace (fst (fprintf (sprintf_s fmt line_flag) (fst ?r))) =
        trace (xl_world s) @ [Wrote a, Wrote c]"
      using a c by simp
    have e1: "\<exists>ws. trace (fst ?r) = trace (xl_world s) @ ws \<and> list_all is_wrote ws \<and> nbytes ws \<le> B"
      using a b1 by (intro exI [of _ "[Wrote a]"]) simp
    have e2: "\<exists>ws. trace (fst (fprintf (sprintf_s fmt line_flag) (fst ?r))) = trace (xl_world s) @ ws \<and>
        list_all is_wrote ws \<and> nbytes ws \<le> B"
      using t2 b2 by (intro exI [of _ "[Wrote a, Wrote c]"]) simp
    show ?thesis
      using Some e1 e2 assms(1) by (simp add: within_def world_of_def cr_case_def Let_def)
  qed
qed

lemma bs_put_within:
  assumes "xl_world s = xl_world s0" and "- ts < xl_column s" and "xl_column s < ts" and "1 \<le> B"
  shows "within B ts s0 (bs_put s)"
proof -
  obtain a where a: "trace (fst (putc BS (xl_world s))) = trace (xl_world s) @ [Wrote a]"
    and la: "length a \<le> 1"
    using trace_putc_le by blast
  have "\<exists>ws. trace (fst (putc BS (xl_world s))) = trace (xl_world s0) @ ws \<and> list_all is_wrote ws \<and>
      nbytes ws \<le> B"
    using a la assms(1,4) by (intro exI [of _ "[Wrote a]"]) (simp add: nbytes_def)
  then show ?thesis
    using assms(2,3) by (simp add: within_def world_of_def bs_put_def Let_def)
qed

lemma bs_case_within:
  assumes "0 < ts" and "- ts < xl_column s" and "xl_column s < ts" and "1 \<le> B"
  shows "within B ts s (bs_case ts s)"
proof -
  have "within B ts s (Inr (s\<lparr>xl_t := tl (xl_t s)\<rparr>))"
    using assms by (simp add: within_def world_of_def nbytes_def)
  then show ?thesis
    using assms by (simp add: bs_case_def Let_def bs_put_within)
qed

lemma default_case_within:
  assumes "0 < ts" and "mc_len (mcel_scan cfg (xl_t s)) \<le> L" and "max 1 L \<le> B"
  shows "within B ts s (default_case cfg ts s)"
proof -
  let ?n = "scan_len cfg (xl_t s)"
  let ?r = "fwrite (take ?n (xl_t s)) (xl_world s)"
  have n: "?n \<le> B"
    using assms(2,3) by (auto simp: scan_len_def min_le_iff_disj)
  have "length (take (snd ?r) (take ?n (xl_t s))) \<le> B"
    using n by simp
  then have "\<exists>ws. trace (fst ?r) = trace (xl_world s) @ ws \<and> list_all is_wrote ws \<and> nbytes ws \<le> B"
    by (intro exI [of _ "[Wrote (take (snd ?r) (take ?n (xl_t s)))]"])
       (simp add: trace_fwrite nbytes_def)
  then show ?thesis
    using c_mod_range [OF assms(1)]
    by (simp add: within_def world_of_def default_case_def Let_def)
qed

lemma expand_step_within:
  assumes "0 < tabsize cfg" and "\<forall>t. mc_len (mcel_scan cfg t) \<le> L"
    and "- tabsize cfg < xl_column s" and "xl_column s < tabsize cfg"
  shows "\<exists>ws. trace (world_of (expand_step cfg flag_format line_flag s)) =
          trace (xl_world s) @ Iter # (if xl_counter s + 1 = int MAX_CHUNK then [Poll] else []) @ ws \<and>
        list_all is_wrote ws \<and> nbytes ws \<le> step_bound cfg flag_format line_flag L \<and>
        (\<forall>s'. expand_step cfg flag_format line_flag s = Inr s' \<longrightarrow>
              xl_counter s' = (if xl_counter s + 1 = int MAX_CHUNK then 0 else xl_counter s + 1) \<and>
              - tabsize cfg < xl_column s' \<and> xl_column s' < tabsize cfg)"
proof -
  let ?s1 = "count_iteration s"
  let ?res = "expand_step cfg flag_format line_flag s"
  let ?B = "step_bound cfg flag_format line_flag L"
  have res: "?res =
     (if hd (xl_t ?s1) = TAB then tab_case (tabsize cfg) ?s1
      else if hd (xl_t ?s1) = CR then cr_case flag_format line_flag ?s1
      else if hd (xl_t ?s1) = BS then bs_case (tabsize cfg) ?s1
      else default_case cfg (tabsize cfg) ?s1)"
    by (simp add: expand_step_def Let_def)
  have col: "xl_column ?s1 = xl_column s"
    by (simp add: count_iteration_def Let_def)
  have b1: "nat (2 * tabsize cfg) \<le> ?B"
    and b2: "1 + (case flag_format of None \<Rightarrow> 0 | Some fmt \<Rightarrow> length (sprintf_s fmt line_flag)) \<le> ?B"
    and b3: "1 \<le> ?B" and b4: "max 1 L \<le> ?B"
    by (auto simp: step_bound_def le_max_iff_disj)
  have wi: "within ?B (tabsize cfg) ?s1 ?res"
    unfolding res
    using assms col
    by (simp add: tab_case_within [OF _ _ b1] cr_case_within [OF _ b2] bs_case_within [OF _ _ _ b3]
        default_case_within [OF _ _ b4])
  then obtain ws where ws: "trace (world_of ?res) = trace (xl_world ?s1) @ ws"
    and only: "list_all is_wrote ws" and nb: "nbytes ws \<le> ?B"
    and inv: "\<forall>s'. ?res = Inr s' \<longrightarrow> - tabsize cfg < xl_column s' \<and> xl_column s' < tabsize cfg"
    by (auto simp: within_def)
  have t1: "trace (xl_world ?s1) =
      trace (xl_world s) @ Iter # (if xl_counter s + 1 = int MAX_CHUNK then [Poll] else [])"
    by (simp add: count_iteration_def Let_def process_signals_def)
  obtain ws0 where ws0: "trace (world_of ?res) =
      trace (xl_world s) @ Iter # (if xl_counter s + 1 = int MAX_CHUNK then [Poll] else []) @ ws0"
    and cnt: "\<forall>s'. ?res = Inr s' \<longrightarrow>
        xl_counter s' = (if xl_counter s + 1 = int MAX_CHUNK then 0 else xl_counter s + 1)"
    using expand_step_shape [of cfg flag_format line_flag s] by blast
  show ?thesis
    using ws only nb inv t1 cnt by (intro exI [of _ ws]) simp
qed

lemma expand_loop_gaps:
  "0 < tabsize cfg \<Longrightarrow> \<forall>t. mc_len (mcel_scan cfg t) \<le> L \<Longrightarrow>
   0 \<le> xl_counter s \<Longrightarrow> xl_counter s < int MAX_CHUNK \<Longrightarrow>
   - tabsize cfg < xl_column s \<Longrightarrow> xl_column s < tabsize cfg \<Longrightarrow>
   n \<le> (nat (xl_counter s) + 1) * step_bound cfg flag_format line_flag L \<Longrightarrow>
   \<exists>tr. trace (expand_loop cfg flag_format line_flag s) = trace (xl_world s) @ tr \<and>
        bounded_gaps (MAX_CHUNK * step_bound cfg flag_format line_flag L) n tr"
proof (induction cfg flag_format line_flag s arbitrary: n rule: expand_loop.induct)
  case (1 cfg flag_format line_flag s)
  let ?B = "step_bound cfg flag_format line_flag L"
  let ?res = "expand_step cfg flag_format line_flag s"
  let ?P = "if xl_counter s + 1 = int MAX_CHUNK then [Poll] else []"
  let ?c' = "if xl_counter s + 1 = int MAX_CHUNK then 0 else xl_counter s + 1"
  have top: "m \<le> (nat c + 1) * ?B \<Longrightarrow> c < int MAX_CHUNK \<Longrightarrow> m \<le> MAX_CHUNK * ?B" for m c
  proof -
    assume m: "m \<le> (nat c + 1) * ?B" and c: "c < int MAX_CHUNK"
    have "nat c + 1 \<le> MAX_CHUNK"
      using c unfolding MAX_CHUNK_def by linarith
    then have "(nat c + 1) * ?B \<le> MAX_CHUNK * ?B"
      by (rule mult_le_mono1)
    then show ?thesis
      using m by linarith
  qed
  have n_top: "n \<le> MAX_CHUNK * ?B"
    using top [OF "1.prems"(7) "1.prems"(4)] .
  show ?case
  proof (cases "xl_t s = []")
    case True
    then show ?thesis
      using n_top by (simp add: expand_loop.simps [of cfg flag_format line_flag s])
  next
    case False
    obtain ws where ws: "trace (world_of ?res) = trace (xl_world s) @ Iter # ?P @ ws"
      and only: "list_all is_wrote ws" and nb: "nbytes ws \<le> ?B"
      and inv: "\<forall>s'. ?res = Inr s' \<longrightarrow>
          xl_counter s' = ?c' \<and> - tabsize cfg < xl_column s' \<and> xl_column s' < tabsize cfg"
      using expand_step_within [OF "1.prems"(1) "1.prems"(2) "1.prems"(5) "1.prems"(6),
          of flag_format line_flag] by blast
    define n' where "n' = (if xl_counter s + 1 = int MAX_CHUNK then nbytes ws else n + nbytes ws)"
    have c': "0 \<le> ?c'" "?c' < int MAX_CHUNK"
      using "1.prems"(3,4) by (auto simp: MAX_CHUNK_def)
    have n': "n' \<le> (nat ?c' + 1) * ?B"
    proof (cases "xl_counter s + 1 = int MAX_CHUNK")
      case True
      then show ?thesis
        using nb by (simp add: n'_def)
    next
      case False
      have "nat (xl_counter s + 1) = nat (xl_counter s) + 1"
        using "1.prems"(3) by linarith
      then have "(nat (xl_counter s + 1) + 1) * ?B = (nat (xl_counter s) + 1) * ?B + ?B"
        by (simp add: algebra_simps)
      then show ?thesis
        using False nb "1.prems"(7) by (simp add: n'_def)
    qed
    have step: "bounded_gaps (MAX_CHUNK * ?B) n ((Iter # ?P @ ws) @ r) =
        bounded_gaps (MAX_CHUNK * ?B) n' r" for r
      using n_top bounded_gaps_writes [OF only, of "MAX_CHUNK * ?B" _ r]
      by (simp add: n'_def)
    show ?thesis
    proof (cases ?res)
      case (Inl w')
      then have "expand_loop cfg flag_format line_flag s = w'"
        using False by (simp add: expand_loop.simps [of cfg flag_format line_flag s])
      moreover have "trace w' = trace (xl_world s) @ ((Iter # ?P @ ws) @ [])"
        using ws Inl by (simp add: world_of_def)
      moreover have "bounded_gaps (MAX_CHUNK * ?B) n ((Iter # ?P @ ws) @ [])"
        unfolding step using top [OF n' c'(2)] by simp
      ultimately show ?thesis by blast
    next
      case (Inr s')
      then have eq: "expand_loop cfg flag_format line_flag s = expand_loop cfg flag_format line_flag s'"
        using False by (simp add: expand_loop.simps [of cfg flag_format line_flag s])
      have cs: "xl_counter s' = ?c'" and col: "- tabsize cfg < xl_column s'" "xl_column s' < tabsize cfg"
        using inv Inr by simp_all
      have n'': "n' \<le> (nat (xl_counter s') + 1) * ?B"
        using n' cs by simp
      have cr: "0 \<le> xl_counter s'" "xl_counter s' < int MAX_CHUNK"
        using c' cs by simp_all
      obtain tr where tr: "trace (expand_loop cfg flag_format line_flag s') = trace (xl_world s') @ tr"
        and g: "bounded_gaps (MAX_CHUNK * ?B) n' tr"
        using "1.IH" [OF False Inr "1.prems"(1) "1.prems"(2) cr col n''] by blast
      have "trace (xl_world s') = trace (xl_world s) @ Iter # ?P @ ws"
        using ws Inr by (simp add: world_of_def)
      then have "trace (expand_loop cfg flag_format line_flag s) =
          trace (xl_world s) @ ((Iter # ?P @ ws) @ tr)"
        using eq tr by simp
      moreover have "bounded_gaps (MAX_CHUNK * ?B) n ((Iter # ?P @ ws) @ tr)"
        unfolding step using g .
      ultimately show ?thesis by blast
    qed
  qed
qed


lemma iterations_replicate: "iterations config_tabs (replicate n (CHR ''a'')) = n"
proof (induction n)
  case 0
  then show ?case by (simp add: iterations.simps [of _ "[]"])
next
  case (Suc n)
  have "step_len config_tabs (CHR ''a'' # replicate n (CHR ''a'')) = 1"
    by (simp add: step_len_def scan_len_def config_tabs_def config_example_def TAB_def CR_def BS_def)
  then show ?case
    using Suc by (simp add: iterations.simps [of _ "CHR ''a'' # replicate n (CHR ''a'')"])
qed

text \<open>
  C8.  The trace that \<^verbatim>\<open>output_1_line\<close> adds.

  Without tab expansion it is a sequence of writes of at most 1024 bytes, each
  followed at once by a call of \<^verbatim>\<open>process_signals\<close>, so at most 1024 bytes are written
  between two calls; when no write fails the calls are as many as the chunks of 1024
  bytes of the line, and the bytes written are the line.

  With tab expansion, \<^verbatim>\<open>process_signals\<close> is called exactly when 1024 iterations of
  the loop have started since the last call (or since the start), before anything
  more is written; when no write fails the loop makes \<open>iterations cfg str\<close>
  iterations and calls \<^verbatim>\<open>process_signals\<close> once for every 1024 of them; and for a
  positive tab size and characters of at most \<open>L\<close> bytes, at most
  \<open>1024 * step_bound cfg flag_format line_flag L\<close> bytes are written between two calls
  (and before the first and after the last).
\<close>

theorem output_1_line_polls:
  "\<exists>tr. trace (output_1_line cfg str flag_format line_flag w) = trace w @ tr \<and>
        (if expand_tabs cfg
         then paced 0 tr \<and>
              (room w = None \<longrightarrow>
                 iters tr = iterations cfg str \<and> polls tr = iterations cfg str div MAX_CHUNK) \<and>
              (0 < tabsize cfg \<and> (\<forall>t. mc_len (mcel_scan cfg t) \<le> L) \<longrightarrow>
                 bounded_gaps (MAX_CHUNK * step_bound cfg flag_format line_flag L) 0 tr)
         else chunked tr \<and> bounded_gaps MAX_CHUNK 0 tr \<and>
              (room w = None \<longrightarrow>
                 polls tr = (length str + (MAX_CHUNK - 1)) div MAX_CHUNK \<and>
                 concat (map bytes_of tr) = str))"
proof (cases "expand_tabs cfg")
  case True
  let ?s = "\<lparr>xl_t = str, xl_tab = 0, xl_column = 0, xl_counter = 0, xl_world = w\<rparr>"
  have out: "output_1_line cfg str flag_format line_flag w = expand_loop cfg flag_format line_flag ?s"
    using True by (simp add: output_1_line_def)
  have "\<exists>tr. trace (expand_loop cfg flag_format line_flag ?s) = trace (xl_world ?s) @ tr \<and>
             paced (nat (xl_counter ?s)) tr"
    by (rule expand_loop_paced) (simp_all add: MAX_CHUNK_def)
  then obtain tr where tr: "trace (expand_loop cfg flag_format line_flag ?s) = trace w @ tr"
    and pc: "paced 0 tr"
    by auto
  have cnt: "iters tr = iterations cfg str \<and> polls tr = iterations cfg str div MAX_CHUNK"
    if "room w = None"
  proof -
    have "\<exists>tr. trace (expand_loop cfg flag_format line_flag ?s) = trace (xl_world ?s) @ tr \<and>
        iters tr = iterations cfg (xl_t ?s) \<and>
        polls tr = (nat (xl_counter ?s) + iterations cfg (xl_t ?s)) div MAX_CHUNK"
      by (rule expand_loop_counts) (simp_all add: that MAX_CHUNK_def)
    then show ?thesis
      using tr by auto
  qed
  have gaps: "bounded_gaps (MAX_CHUNK * step_bound cfg flag_format line_flag L) 0 tr"
    if "0 < tabsize cfg" and "\<forall>t. mc_len (mcel_scan cfg t) \<le> L"
  proof -
    have "\<exists>tr. trace (expand_loop cfg flag_format line_flag ?s) = trace (xl_world ?s) @ tr \<and>
        bounded_gaps (MAX_CHUNK * step_bound cfg flag_format line_flag L) 0 tr"
      by (rule expand_loop_gaps) (simp_all add: that MAX_CHUNK_def)
    then show ?thesis
      using tr by auto
  qed
  show ?thesis
    using True out tr pc cnt gaps by (intro exI [of _ tr]) simp
next
  case False
  have out: "output_1_line cfg str flag_format line_flag w = write_chunks str w"
    using False by (simp add: output_1_line_def)
  obtain tr where tr: "trace (write_chunks str w) = trace w @ tr" and ch: "chunked tr"
    using write_chunks_chunked by blast
  have cnt: "polls tr = (length str + (MAX_CHUNK - 1)) div MAX_CHUNK \<and> concat (map bytes_of tr) = str"
    if "room w = None"
    using write_chunks_polls [OF that, of str] tr by auto
  show ?thesis
    using False out tr ch chunked_bounded_gaps [OF ch] cnt by (intro exI [of _ tr]) simp
qed

theorem output_1_line_polls_witness:
  "paced 0 (trace (output_1_line config_tabs (replicate 2500 (CHR ''a'')) None [] world_init)) \<and>
   iters (trace (output_1_line config_tabs (replicate 2500 (CHR ''a'')) None [] world_init)) = 2500 \<and>
   polls (trace (output_1_line config_tabs (replicate 2500 (CHR ''a'')) None [] world_init)) = 2 \<and>
   bounded_gaps (1024 * 16) 0
     (trace (output_1_line config_tabs (replicate 2500 (CHR ''a'')) None [] world_init)) \<and>
   chunked (trace (output_1_line config_example (replicate 2500 (CHR ''a'')) None [] world_init)) \<and>
   polls (trace (output_1_line config_example (replicate 2500 (CHR ''a'')) None [] world_init)) = 3 \<and>
   written (output_1_line config_example (replicate 2500 (CHR ''a'')) None [] world_init) =
     replicate 2500 (CHR ''a'')"
proof -
  have w: "trace world_init = []" "room world_init = None"
    by (simp_all add: world_init_def)
  have t: "expand_tabs config_tabs" "0 < tabsize config_tabs"
    "\<forall>t. mc_len (mcel_scan config_tabs t) \<le> 1"
    "step_bound config_tabs None [] 1 = 16"
    by (simp_all add: config_tabs_def config_example_def step_bound_def)
  have e: "\<not> expand_tabs config_example"
    by (simp add: config_example_def)
  have a: "paced 0 (trace (output_1_line config_tabs (replicate 2500 (CHR ''a'')) None [] world_init)) \<and>
   iters (trace (output_1_line config_tabs (replicate 2500 (CHR ''a'')) None [] world_init)) = 2500 \<and>
   polls (trace (output_1_line config_tabs (replicate 2500 (CHR ''a'')) None [] world_init)) = 2 \<and>
   bounded_gaps (1024 * 16) 0
     (trace (output_1_line config_tabs (replicate 2500 (CHR ''a'')) None [] world_init))"
    using output_1_line_polls [of config_tabs "replicate 2500 (CHR ''a'')" None "[]" world_init 1]
      w t iterations_replicate [of 2500]
    by (auto simp: MAX_CHUNK_def)
  have b: "chunked (trace (output_1_line config_example (replicate 2500 (CHR ''a'')) None [] world_init)) \<and>
   polls (trace (output_1_line config_example (replicate 2500 (CHR ''a'')) None [] world_init)) = 3 \<and>
   written (output_1_line config_example (replicate 2500 (CHR ''a'')) None [] world_init) =
     replicate 2500 (CHR ''a'')"
    using output_1_line_polls [of config_example "replicate 2500 (CHR ''a'')" None "[]" world_init 1]
      w e
    by (auto simp: MAX_CHUNK_def written_def)
  show ?thesis
    using a b by simp
qed

subsection \<open>The marker of an incomplete line\<close>

lemma print_line_flag_room:
  "room w = None \<Longrightarrow> room (snd (print_line_flag cfg line_flag line w)) = None"
  by (simp add: print_line_flag_def Let_def room_fprintf split: option.splits)

lemma print_line_content_room:
  "room w = None \<Longrightarrow> room (print_line_content cfg line_flag line skip_nl w) = None"
  using print_line_flag_room [of w cfg line_flag line]
  by (cases "print_line_flag cfg line_flag line w")
     (simp add: print_line_content_def output_1_line_room)

lemma put_indicator_written:
  "room w = None \<Longrightarrow>
   room (put_indicator ind w) = None \<and>
   written (put_indicator ind w) = written w @ bin_bytes w (color_indicator w ind) \<and>
   color_indicator (put_indicator ind w) = color_indicator w \<and>
   palette_buf (put_indicator ind w) = palette_buf w"
  by (simp add: put_indicator_def room_fwrite written_fwrite) (simp add: fwrite_def Let_def)

lemma bin_bytes_cong:
  "palette_buf w' = palette_buf w \<Longrightarrow> bin_bytes w' b = bin_bytes w b"
  by (simp add: bin_bytes_def split: strptr.splits)

lemma set_color_context_reset:
  assumes "room w = None"
  shows "room (set_color_context RESET_CONTEXT w) = None \<and>
         written (set_color_context RESET_CONTEXT w) = written w @ reset_sequence w"
proof (cases "colors_enabled w \<and> last_context w \<noteq> RESET_CONTEXT")
  case False
  then show ?thesis
    using assms by (auto simp: set_color_context_def reset_sequence_def)
next
  case True
  let ?w2 = "put_indicator C_LEFT w"
  let ?w3 = "put_indicator C_RESET ?w2"
  let ?w4 = "put_indicator C_RIGHT ?w3"
  note p2 = put_indicator_written [OF assms, of C_LEFT]
  have r2: "room ?w2 = None" using p2 by simp
  note p3 = put_indicator_written [OF r2, of C_RESET]
  have r3: "room ?w3 = None" using p3 by simp
  note p4 = put_indicator_written [OF r3, of C_RIGHT]
  have b3: "bin_bytes ?w2 b = bin_bytes w b" for b
    by (rule bin_bytes_cong) (simp add: p2)
  have b4: "bin_bytes ?w3 b = bin_bytes w b" for b
    by (rule bin_bytes_cong) (simp add: p2 p3)
  have "written ?w4 = written w @ reset_sequence w"
    using True p2 p3 p4 b3 b4 by (simp add: reset_sequence_def)
  moreover have "room ?w4 = None"
    using p4 by simp
  moreover have "set_color_context RESET_CONTEXT w = ?w4\<lparr>last_context := RESET_CONTEXT\<rparr>"
    using True by (simp add: set_color_context_def Let_def)
  ultimately show ?thesis
    by (simp add: written_def)
qed

text \<open>
  C6 (as the code has it).  \<^verbatim>\<open>print_1_line\<close> is \<^verbatim>\<open>print_1_line_nl\<close> without \<open>skip_nl\<close>.
  On a stream that accepts the output, \<^verbatim>\<open>print_1_line_nl\<close> writes the flag and the
  content of the line, and then, when the line does not end in a newline and the
  flag is null or not empty, the colour reset (if any) and the marker line
  \<^verbatim>\<open>\ No newline at end of file\<close>.  It writes nothing after the content when the line
  ends in a newline, and nothing when the flag is the empty string.
\<close>

theorem print_1_line_nl_marker:
  assumes "room w = None"
  shows "print_1_line cfg line_flag line w = print_1_line_nl cfg line_flag line False w \<and>
         written (print_1_line_nl cfg line_flag line skip_nl w) =
           written (print_line_content cfg line_flag line skip_nl w) @
           (if line_flag \<noteq> Some [] \<and> \<not> ends_nl line
            then reset_sequence (print_line_content cfg line_flag line skip_nl w) @
                 no_newline_marker
            else [])"
proof -
  let ?w2 = "print_line_content cfg line_flag line skip_nl w"
  have r2: "room ?w2 = None"
    using assms by (rule print_line_content_room)
  note sc = set_color_context_reset [OF r2]
  have "written (fst (fprintf no_newline_marker (set_color_context RESET_CONTEXT ?w2))) =
        written ?w2 @ reset_sequence ?w2 @ no_newline_marker"
    using sc by (simp add: written_fprintf)
  then show ?thesis
    by (auto simp: print_1_line_nl_def print_1_line_def Let_def)
qed

lemma marker_text:
  "no_newline_marker = NL # CHR 0x5C # '' No newline at end of file'' @ [NL]"
  by (simp add: no_newline_marker_def NL_def)

theorem print_1_line_nl_marker_witness:
  "room world_init = None \<and>
   written (print_1_line_nl config_example (Some ''<'') ''abc'' False world_init) =
     ''< abc'' @ NL # CHR 0x5C # '' No newline at end of file'' @ [NL] \<and>
   written (print_1_line_nl config_example (Some ''<'') ''abc\<newline>'' False world_init) =
     ''< abc\<newline>''"
proof -
  have r: "room world_init = None"
    by (simp add: world_init_def)
  have a: "written (print_line_content config_example (Some ''<'') ''abc'' False world_init) = ''< abc''"
    by code_simp
  have a': "reset_sequence (print_line_content config_example (Some ''<'') ''abc'' False world_init) = []"
    by code_simp
  have b: "written (print_line_content config_example (Some ''<'') ''abc\<newline>'' False world_init) = ''< abc\<newline>''"
    by code_simp
  have e: "\<not> ends_nl ''abc''" "ends_nl ''abc\<newline>''"
    by (simp_all add: ends_nl_def NL_def)
  show ?thesis
    using print_1_line_nl_marker [OF r, of config_example "Some ''<''" "''abc''" False]
      print_1_line_nl_marker [OF r, of config_example "Some ''<''" "''abc\<newline>''" False]
    by (simp add: r a a' b e marker_text)
qed

text \<open>
  With the empty flag (as the \<^verbatim>\<open>ed\<close> output styles pass it) the line \<^verbatim>\<open>abc\<close>, which
  has no newline, is printed without the marker.
\<close>

theorem empty_flag_no_marker_counterexample:
  "\<not> ends_nl ''abc'' \<and>
   written (print_1_line_nl config_example (Some []) ''abc'' False world_init) = ''abc'' \<and>
   written (print_1_line config_example (Some []) ''abc'' world_init) = ''abc''"
  by code_simp

subsection \<open>The classification of a hunk\<close>

lemma changes_or_simps:
  "changes_or UNCHANGED UNCHANGED = UNCHANGED"
  "changes_or OLD UNCHANGED = OLD"
  "changes_or UNCHANGED NEW = NEW"
  "changes_or OLD NEW = CHANGED"
  by (simp_all add: changes_or_def changes_of_def)

lemma scan_lines_False: "scan_lines cfg lb i l False = False"
  by (simp add: scan_lines.simps [of cfg lb i l False])

lemma scan_lines_True:
  "scan_lines cfg lb i l True = list_all (\<lambda>x. \<not> line_nontrivial cfg x) (map lb [i..l])"
proof (induction "nat (l + 1 - i)" arbitrary: i)
  case 0
  then have "\<not> i \<le> l" by simp
  then show ?case
    by (simp add: scan_lines.simps [of cfg lb i l True])
next
  case (Suc n)
  then have le: "i \<le> l" and n: "n = nat (l + 1 - (i + 1))"
    by linarith+
  have up: "[i..l] = i # [i + 1..l]"
    using le by (simp add: upto_rec1)
  show ?case
  proof (cases "line_nontrivial cfg (lb i)")
    case True
    then show ?thesis
      using le up by (simp add: scan_lines.simps [of cfg lb i l True] scan_lines_False)
  next
    case False
    then show ?thesis
      using le up Suc.hyps(1) [OF n]
      by (simp add: scan_lines.simps [of cfg lb i l True])
  qed
qed

lemma scan_lines_eq:
  "scan_lines cfg lb i l t = (t \<and> list_all (\<lambda>x. \<not> line_nontrivial cfg x) (map lb [i..l]))"
  by (cases t) (simp_all add: scan_lines_True scan_lines_False)

lemma quiet_append: "quiet cfg (a @ b) = (quiet cfg a \<and> quiet cfg b)"
  by (simp add: quiet_def)

lemma hunk_loop_trivial:
  "trivial (hunk_loop cfg file0 file1 hunk v) =
     (trivial v \<and> quiet cfg (deleted_lines file0 hunk) \<and> quiet cfg (inserted_lines file1 hunk))"
proof (induction hunk arbitrary: v)
  case Nil
  then show ?case
    by (simp add: deleted_lines_def inserted_lines_def quiet_def)
next
  case (Cons c hunk)
  have b: "trivial (hunk_body cfg file0 file1 c v) =
      (trivial v \<and> quiet cfg (map (linbuf file0) [line0 c..line0 c + deleted c - 1]) \<and>
       quiet cfg (map (linbuf file1) [line1 c..line1 c + inserted c - 1]))"
    by (simp add: hunk_body_def Let_def scan_lines_eq quiet_def)
  show ?case
    by (simp add: Cons.IH b deleted_lines_def inserted_lines_def quiet_append) blast
qed

lemma hunk_loop_show_from:
  "show_from (hunk_loop cfg file0 file1 hunk v) = show_from v + sum_list (map deleted hunk)"
  by (induction hunk arbitrary: v) (simp_all add: hunk_body_def Let_def)

lemma hunk_loop_show_to:
  "show_to (hunk_loop cfg file0 file1 hunk v) = show_to v + sum_list (map inserted hunk)"
  by (induction hunk arbitrary: v) (simp_all add: hunk_body_def Let_def)

lemma deleted_lines_empty:
  "\<forall>c \<in> set hunk. 0 \<le> deleted c \<Longrightarrow>
   (deleted_lines file0 hunk = []) = (sum_list (map deleted hunk) = 0)"
proof (induction hunk)
  case Nil
  then show ?case by (simp add: deleted_lines_def)
next
  case (Cons c hunk)
  have nn: "0 \<le> sum_list (map deleted hunk)"
    using Cons.prems by (auto intro!: sum_list_nonneg)
  have "([line0 c..line0 c + deleted c - 1] = []) = (deleted c = 0)"
    using Cons.prems by auto
  then show ?case
    using Cons nn by (auto simp: deleted_lines_def)
qed

lemma inserted_lines_empty:
  "\<forall>c \<in> set hunk. 0 \<le> inserted c \<Longrightarrow>
   (inserted_lines file1 hunk = []) = (sum_list (map inserted hunk) = 0)"
proof (induction hunk)
  case Nil
  then show ?case by (simp add: inserted_lines_def)
next
  case (Cons c hunk)
  have nn: "0 \<le> sum_list (map inserted hunk)"
    using Cons.prems by (auto intro!: sum_list_nonneg)
  have "([line1 c..line1 c + inserted c - 1] = []) = (inserted c = 0)"
    using Cons.prems by auto
  then show ?case
    using Cons nn by (auto simp: inserted_lines_def)
qed

lemma skip_white_Nil: "skip_white cfg whole [] = []"
  by (simp add: skip_white.simps [of cfg whole "[]"])

lemma skip_white_empty:
  "whole \<noteq> [] \<Longrightarrow> (skip_white cfg whole r = []) = white_only cfg r"
proof (induction cfg whole r rule: skip_white.induct)
  case (1 cfg whole r)
  show ?case
  proof (cases "r = [] \<or> hd r = NL")
    case True
    then show ?thesis
      by (auto simp: skip_white.simps [of cfg whole r] white_only.simps [of cfg r])
  next
    case False
    show ?thesis
    proof (cases "c32isspace cfg (mc_ch (mcel_scan cfg r))")
      case True
      then show ?thesis
        using False "1.IH" "1.prems"
        by (simp add: skip_white.simps [of cfg whole r] white_only.simps [of cfg r])
    next
      case nospace: False
      then show ?thesis
        using False "1.prems"
        by (simp add: skip_white.simps [of cfg whole r] white_only.simps [of cfg r])
    qed
  qed
qed

lemma newline_minus_p_zero:
  "(newline_minus_p cfg l = 0) =
     (content l = [] \<or> (skip_white_space cfg \<and> white_only cfg (content l)))"
proof (cases "content l = []")
  case True
  then show ?thesis
    by (simp add: newline_minus_p_def skip_white_Nil)
next
  case False
  then show ?thesis
    by (simp add: newline_minus_p_def skip_white_empty)
qed

lemma newline_minus_p_nonneg: "0 \<le> newline_minus_p cfg l"
  by (simp add: newline_minus_p_def)

lemma length_matches_trivial:
  "(newline_minus_p cfg l = trivial_length cfg) = (ignore_blank_lines cfg \<and> blank_line cfg l)"
proof (cases "ignore_blank_lines cfg")
  case True
  then show ?thesis
    by (simp add: trivial_length_def blank_line_def newline_minus_p_zero)
next
  case False
  then show ?thesis
    using newline_minus_p_nonneg [of cfg l] by (simp add: trivial_length_def)
qed

lemma ignorable_iff:
  "ignorable cfg l =
     ((ignore_blank_lines cfg \<and> blank_line cfg l) \<or>
      (case ignore_regexp cfg of None \<Rightarrow> False | Some re \<Rightarrow> 0 \<le> re (content l)))"
  by (auto simp: ignorable_def line_nontrivial_def length_matches_trivial split: option.splits)

lemma blank_line_ignorable:
  "ignore_blank_lines cfg \<Longrightarrow> blank_line cfg l \<Longrightarrow> \<not> line_nontrivial cfg l"
  by (simp add: line_nontrivial_def length_matches_trivial)

lemma quiet_ignorable:
  "ignore_blank_lines cfg \<or> ignore_regexp cfg \<noteq> None \<Longrightarrow>
   quiet cfg ls = list_all (ignorable cfg) ls"
  by (induction ls) (auto simp: quiet_def ignorable_def)

lemma no_rule_ignorable:
  "\<not> (ignore_blank_lines cfg \<or> ignore_regexp cfg \<noteq> None) \<Longrightarrow>
   list_all (ignorable cfg) ls = (ls = [])"
  by (cases ls) (simp_all add: ignorable_def)

text \<open>
  C1.  For a hunk (a non-empty chain of changes, each with counts that are not
  negative), \<^verbatim>\<open>analyze_hunk\<close> returns \<^verbatim>\<open>UNCHANGED\<close> when every line the hunk deletes
  or inserts is ignorable under the active ignore rules; otherwise it returns \<^verbatim>\<open>OLD\<close>
  when the hunk inserts no line, \<^verbatim>\<open>NEW\<close> when it deletes no line, and \<^verbatim>\<open>CHANGED\<close>
  when it does both.
\<close>

theorem analyze_hunk_classifies:
  assumes "hunk \<noteq> []" and "\<forall>c \<in> set hunk. 0 \<le> deleted c \<and> 0 \<le> inserted c"
  shows "\<exists>first0 last0 first1 last1.
           analyze_hunk cfg file0 file1 hunk =
             Some (if list_all (ignorable cfg)
                        (deleted_lines file0 hunk @ inserted_lines file1 hunk)
                   then UNCHANGED
                   else if inserted_lines file1 hunk = [] then OLD
                   else if deleted_lines file0 hunk = [] then NEW
                   else CHANGED,
                   first0, last0, first1, last1)"
proof -
  let ?v = "hunk_loop cfg file0 file1 hunk (hunk_start cfg)"
  let ?D = "deleted_lines file0 hunk" and ?I = "inserted_lines file1 hunk"
  let ?res = "if trivial ?v then UNCHANGED
              else changes_or (if show_from ?v \<noteq> 0 then OLD else UNCHANGED)
                              (if show_to ?v \<noteq> 0 then NEW else UNCHANGED)"
  obtain c rest where hunk: "hunk = c # rest"
    using assms(1) by (cases hunk) auto
  have ah: "analyze_hunk cfg file0 file1 hunk = Some (?res, line0 c, hv_l0 ?v, line1 c, hv_l1 ?v)"
    by (simp add: analyze_hunk_def hunk Let_def)
  have sf: "(show_from ?v \<noteq> 0) = (?D \<noteq> [])"
    using assms(2) by (simp add: hunk_loop_show_from hunk_start_def deleted_lines_empty)
  have st: "(show_to ?v \<noteq> 0) = (?I \<noteq> [])"
    using assms(2) by (simp add: hunk_loop_show_to hunk_start_def inserted_lines_empty)
  have triv: "trivial ?v =
      ((ignore_blank_lines cfg \<or> ignore_regexp cfg \<noteq> None) \<and> quiet cfg (?D @ ?I))"
    by (simp add: hunk_loop_trivial hunk_start_def quiet_append)
  have "?res = (if list_all (ignorable cfg) (?D @ ?I) then UNCHANGED
                else if ?I = [] then OLD else if ?D = [] then NEW else CHANGED)"
  proof (cases "ignore_blank_lines cfg \<or> ignore_regexp cfg \<noteq> None")
    case True
    have all: "trivial ?v = list_all (ignorable cfg) (?D @ ?I)"
      using True triv quiet_ignorable [OF True] by simp
    show ?thesis
    proof (cases "list_all (ignorable cfg) (?D @ ?I)")
      case True
      then show ?thesis using all by simp
    next
      case False
      then have "?D \<noteq> [] \<or> ?I \<noteq> []"
        by auto
      then show ?thesis
        using False all sf st by (auto simp: changes_or_simps)
    qed
  next
    case False
    have nt: "\<not> trivial ?v"
      using False triv by simp
    have all: "list_all (ignorable cfg) (?D @ ?I) = (?D = [] \<and> ?I = [])"
      using no_rule_ignorable [OF False, of "?D @ ?I"] by simp
    show ?thesis
      unfolding all using nt sf st by (auto simp: changes_or_simps)
  qed
  then show ?thesis
    using ah by auto
qed

text \<open>
  C2.  With \<^verbatim>\<open>-B\<close>, a hunk whose deleted and inserted lines are all blank is classified
  \<^verbatim>\<open>UNCHANGED\<close>.  Hence (with the callers as the spec describes them) it is not
  shown, the hunks shown are those shown without it, and when no other hunk is shown
  the verdict is identical.
\<close>

theorem blank_hunk_unchanged:
  assumes "ignore_blank_lines cfg" and "hunk \<noteq> []"
    and "list_all (blank_line cfg) (deleted_lines file0 hunk @ inserted_lines file1 hunk)"
  shows "(\<exists>first0 last0 first1 last1.
            analyze_hunk cfg file0 file1 hunk = Some (UNCHANGED, first0, last0, first1, last1)) \<and>
         shown_hunks cfg file0 file1 [hunk] = [] \<and>
         shown_hunks cfg file0 file1 (before @ hunk # after) =
           shown_hunks cfg file0 file1 (before @ after) \<and>
         (shown_hunks cfg file0 file1 (before @ after) = [] \<longrightarrow>
            verdict cfg file0 file1 (before @ hunk # after) = Identical)"
proof -
  let ?v = "hunk_loop cfg file0 file1 hunk (hunk_start cfg)"
  obtain c rest where hunk: "hunk = c # rest"
    using assms(2) by (cases hunk) auto
  have "quiet cfg (deleted_lines file0 hunk @ inserted_lines file1 hunk)"
    using assms(1,3) unfolding quiet_def
    by (induction "deleted_lines file0 hunk @ inserted_lines file1 hunk")
       (auto simp: list_all_iff blank_line_ignorable)
  then have "trivial ?v"
    using assms(1) by (simp add: hunk_loop_trivial hunk_start_def quiet_append)
  then have ah: "analyze_hunk cfg file0 file1 hunk =
      Some (UNCHANGED, line0 c, hv_l0 ?v, line1 c, hv_l1 ?v)"
    by (simp add: analyze_hunk_def hunk Let_def)
  then have ns: "\<not> hunk_shown cfg file0 file1 hunk"
    by (simp add: hunk_shown_def)
  show ?thesis
    using ah ns by (simp add: shown_hunks_def verdict_def)
qed

text \<open>
  C3 (as the code has it).  With a \<^verbatim>\<open>-I\<close> pattern, a line is ignorable exactly when
  \<^verbatim>\<open>-B\<close> is also given and the line is blank, or \<^verbatim>\<open>re_search\<close> finds a match in the
  text of the line without its newline.  The text that is searched is the line as it
  is: no white space is folded away before the search.
\<close>

theorem ignorable_under_regexp:
  assumes "ignore_regexp cfg = Some re"
  shows "ignorable cfg l =
           ((ignore_blank_lines cfg \<and> blank_line cfg l) \<or> 0 \<le> re (content l))"
  using assms
  by (auto simp: ignorable_def line_nontrivial_def length_matches_trivial)

theorem analyze_hunk_classifies_witness:
  "analyze_hunk config_B file_example file_example [delete_line 1] = Some (UNCHANGED, 1, 1, 1, 0) \<and>
   analyze_hunk config_B file_example file_example [delete_line 0] = Some (OLD, 0, 0, 0, - 1)"
proof -
  have ne: "[delete_line i] \<noteq> []" for i
    by simp
  have nn: "\<forall>c \<in> set [delete_line i]. 0 \<le> deleted c \<and> 0 \<le> inserted c" for i
    by (simp add: delete_line_def)
  have a: "list_all (ignorable config_B)
             (deleted_lines file_example [delete_line 1] @ inserted_lines file_example [delete_line 1])"
    by code_simp
  have b: "\<not> list_all (ignorable config_B)
             (deleted_lines file_example [delete_line 0] @ inserted_lines file_example [delete_line 0])"
    by code_simp
  have c: "inserted_lines file_example [delete_line 0] = []"
    by code_simp
  have v1: "analyze_hunk config_B file_example file_example [delete_line 1] = Some (UNCHANGED, 1, 1, 1, 0)"
    by code_simp
  have v0: "analyze_hunk config_B file_example file_example [delete_line 0] = Some (OLD, 0, 0, 0, - 1)"
    by code_simp
  show ?thesis
    using analyze_hunk_classifies [OF ne nn, of config_B file_example file_example 1]
      analyze_hunk_classifies [OF ne nn, of config_B file_example file_example 0]
    by (simp add: a b c v1 v0)
qed

theorem blank_hunk_unchanged_witness:
  "ignore_blank_lines config_B \<and>
   analyze_hunk config_B file_example file_example [delete_line 1] = Some (UNCHANGED, 1, 1, 1, 0) \<and>
   shown_hunks config_B file_example file_example [[delete_line 1]] = [] \<and>
   verdict config_B file_example file_example [[delete_line 1]] = Identical"
proof -
  have i: "ignore_blank_lines config_B"
    by (simp add: config_B_def)
  have ne: "[delete_line 1] \<noteq> []"
    by simp
  have bl: "list_all (blank_line config_B)
             (deleted_lines file_example [delete_line 1] @ inserted_lines file_example [delete_line 1])"
    by code_simp
  have e: "shown_hunks config_B file_example file_example [] = []"
    by (simp add: shown_hunks_def)
  have v: "analyze_hunk config_B file_example file_example [delete_line 1] = Some (UNCHANGED, 1, 1, 1, 0)"
    by code_simp
  show ?thesis
    using blank_hunk_unchanged [OF i ne bl, of "[]" "[]"] i e v by simp
qed

theorem ignorable_under_regexp_witness:
  "ignore_regexp config_I = Some re_caret_x \<and>
   ignorable config_I ''xy\<newline>'' \<and> \<not> ignorable config_I ''a\<newline>''"
proof -
  have r: "ignore_regexp config_I = Some re_caret_x"
    by (simp add: config_I_def)
  have n: "\<not> ignore_blank_lines config_I"
    by (simp add: config_I_def config_example_def)
  have m: "0 \<le> re_caret_x (content ''xy\<newline>'')" "\<not> 0 \<le> re_caret_x (content ''a\<newline>'')"
    by (simp_all add: re_caret_x_def content_def ends_nl_def NL_def)
  show ?thesis
    using ignorable_under_regexp [OF r, of "''xy\<newline>''"] ignorable_under_regexp [OF r, of "''a\<newline>''"]
    by (simp add: r n m)
qed

text \<open>
  With \<^verbatim>\<open>-w -I ^x\<close> the line \<^verbatim>\<open> x\<close> is not ignorable, although the pattern matches
  \<^verbatim>\<open>x\<close>, which is what remains of the line when its white space is ignored.  With
  \<^verbatim>\<open>-B -I ^x\<close> the empty line is ignorable, although the pattern matches nothing in
  an empty text.
\<close>

theorem regexp_folding_counterexample:
  "ignore_regexp config_I \<noteq> None \<and>
   \<not> ignorable config_I '' x\<newline>'' \<and> 0 \<le> re_caret_x ''x'' \<and>
   ignore_regexp config_BI \<noteq> None \<and>
   ignorable config_BI ''\<newline>'' \<and> re_caret_x [] < 0"
  by code_simp

subsection \<open>Printing the script restores its links\<close>

lemma hunks_Nil: "hunks hunkfun h [] = []"
  by (subst hunks.simps) simp

lemma hunks_Cons:
  "hunks hunkfun h (a # rest) =
     (case hunkfun h (Some a) of
        None \<Rightarrow> []
      | Some e \<Rightarrow>
          (takeWhile (\<lambda>x. x \<noteq> e) (a # rest) @ [e]) #
          hunks hunkfun h (tl (dropWhile (\<lambda>x. x \<noteq> e) (a # rest))))"
  by (subst hunks.simps) simp

lemma chain_split:
  "chain h p ns \<Longrightarrow> e \<in> set ns \<Longrightarrow>
   \<exists>pre post c. ns = pre @ e # post \<and> e \<notin> set pre \<and> h e = Some c \<and> chain h (link c) post"
proof (induction ns arbitrary: p)
  case Nil
  then show ?case by simp
next
  case (Cons a ns)
  obtain c where c: "h a = Some c" "chain h (link c) ns" "p = Some a"
    using Cons.prems(1) by (auto split: option.splits)
  show ?case
  proof (cases "e = a")
    case True
    then have "a # ns = [] @ e # ns \<and> e \<notin> set [] \<and> h e = Some c \<and> chain h (link c) ns"
      using c by simp
    then show ?thesis by blast
  next
    case False
    then have "e \<in> set ns"
      using Cons.prems(2) by simp
    then obtain pre post d where "ns = pre @ e # post" "e \<notin> set pre" "h e = Some d"
        "chain h (link d) post"
      using Cons.IH [OF c(2)] by blast
    then have "a # ns = (a # pre) @ e # post \<and> e \<notin> set (a # pre) \<and> h e = Some d \<and>
        chain h (link d) post"
      using False by simp
    then show ?thesis by blast
  qed
qed

lemma chain_cut:
  "chain h p (pre @ e # post) \<Longrightarrow> e \<notin> set pre \<Longrightarrow> h e = Some c \<Longrightarrow>
   chain (h(e \<mapsto> c\<lparr>link := None\<rparr>)) p (pre @ [e])"
proof (induction pre arbitrary: p)
  case Nil
  then show ?case by simp
next
  case (Cons a pre)
  then show ?case by (auto split: option.splits)
qed

lemma hunks_split:
  assumes "e \<notin> set pre" and "hunkfun h (Some (hd (pre @ [e]))) = Some e"
  shows "hunks hunkfun h (pre @ e # post) = (pre @ [e]) # hunks hunkfun h post"
proof -
  have tw: "takeWhile (\<lambda>x. x \<noteq> e) (pre @ e # post) = pre"
    using assms(1) by (induction pre) auto
  have dw: "dropWhile (\<lambda>x. x \<noteq> e) (pre @ e # post) = e # post"
    using assms(1) by (induction pre) auto
  obtain a rest where ar: "pre @ e # post = a # rest"
    by (cases pre) auto
  then have a: "a = hd (pre @ [e])"
    by (cases pre) auto
  show ?thesis
    using tw dw assms(2) unfolding ar a [symmetric]
    by (subst hunks_Cons) simp
qed

lemma restore_link: "h e = Some c \<Longrightarrow> (h(e \<mapsto> c\<lparr>link := None\<rparr>))(e \<mapsto> c\<lparr>link := None\<rparr>\<lparr>link := link c\<rparr>) = h"
  by (rule ext) simp

lemma print_script_loop_restores:
  assumes frame: "reads_only printfun"
  shows "chain h p ns \<Longrightarrow> ends_in_tail hunkfun h ns0 \<Longrightarrow>
         \<exists>front. ns0 = front @ ns \<Longrightarrow>
         print_script_loop hunkfun printfun p \<lparr>heap = h, out = w, calls = l0\<rparr> =
           Some \<lparr>heap = h,
                 out = apply_calls printfun w (map (hunk_call h) (hunks hunkfun h ns)),
                 calls = l0 @ map (hunk_call h) (hunks hunkfun h ns)\<rparr> \<and>
         concat (hunks hunkfun h ns) = ns \<and>
         list_all (is_hunk hunkfun h) (hunks hunkfun h ns)"
proof (induction ns arbitrary: p w l0 rule: length_induct)
  case (1 ns)
  show ?case
  proof (cases ns)
    case Nil
    then have "p = None"
      using "1.prems"(1) by simp
    then have "print_script_loop hunkfun printfun p \<lparr>heap = h, out = w, calls = l0\<rparr> =
        Some \<lparr>heap = h, out = w, calls = l0\<rparr>"
      by (subst print_script_loop.simps) simp
    then show ?thesis
      using Nil by (simp add: hunks_Nil apply_calls_def)
  next
    case (Cons a rest)
    then have p: "p = Some a"
      using "1.prems"(1) by simp
    obtain front where front: "ns0 = front @ a # rest"
      using "1.prems"(3) Cons by blast
    then obtain e where e: "hunkfun h (Some a) = Some e" "e \<in> set (a # rest)"
      using "1.prems"(2) unfolding ends_in_tail_def by blast
    obtain pre post c where sp: "ns = pre @ e # post" "e \<notin> set pre" "h e = Some c"
        "chain h (link c) post"
      using chain_split [OF "1.prems"(1)] e(2) Cons by blast
    have hd_seg: "hd (pre @ [e]) = a"
      using sp(1) Cons by (cases pre) auto
    let ?h1 = "h(e \<mapsto> c\<lparr>link := None\<rparr>)"
    let ?r = "printfun a (?h1, w)"
    have hs: "hunks hunkfun h ns = (pre @ [e]) # hunks hunkfun h post"
      unfolding sp(1) using sp(2) e(1) hd_seg by (intro hunks_split) simp_all
    have hc: "hunk_call h (pre @ [e]) = (a, ?h1)"
      using hd_seg sp(3) by (simp add: hunk_call_def cut_link_def)
    have fr: "fst ?r = ?h1"
      using frame by (simp add: reads_only_def)
    have restored: "(fst ?r)(e \<mapsto> c\<lparr>link := None\<rparr>\<lparr>link := link c\<rparr>) = h"
      using fr sp(3) restore_link [of h e c] by simp
    have shorter: "length post < length ns"
      using sp(1) by simp
    have fr2: "\<exists>front. ns0 = front @ post"
      using front sp(1) Cons by (intro exI [of _ "front @ pre @ [e]"]) simp
    have rec: "print_script_loop hunkfun printfun (link c)
          \<lparr>heap = h, out = snd ?r, calls = (l0 @ [(a, ?h1)])\<rparr> =
          Some \<lparr>heap = h,
                out = apply_calls printfun (snd ?r) (map (hunk_call h) (hunks hunkfun h post)),
                calls = (l0 @ [(a, ?h1)]) @ map (hunk_call h) (hunks hunkfun h post)\<rparr> \<and>
        concat (hunks hunkfun h post) = post \<and>
        list_all (is_hunk hunkfun h) (hunks hunkfun h post)"
      using "1.IH" [rule_format, OF shorter sp(4) "1.prems"(2) fr2, of "snd ?r" "l0 @ [(a, ?h1)]"]
      by blast
    have step: "print_script_loop hunkfun printfun p \<lparr>heap = h, out = w, calls = l0\<rparr> =
        print_script_loop hunkfun printfun (link c)
          \<lparr>heap = h, out = snd ?r, calls = l0 @ [(a, ?h1)]\<rparr>"
      using p e(1) sp(3) fr restored
      by (subst print_script_loop.simps) (simp add: Let_def)
    have seg: "is_hunk hunkfun h (pre @ [e])"
      using chain_cut [of h p pre e post c] "1.prems"(1) sp p e(1) hd_seg
      by (simp add: is_hunk_def cut_link_def)
    have "print_script_loop hunkfun printfun p \<lparr>heap = h, out = w, calls = l0\<rparr> =
        Some \<lparr>heap = h,
              out = apply_calls printfun w (map (hunk_call h) (hunks hunkfun h ns)),
              calls = l0 @ map (hunk_call h) (hunks hunkfun h ns)\<rparr>"
      using step rec hs hc by (simp add: apply_calls_def)
    moreover have "concat (hunks hunkfun h ns) = ns"
      using rec hs sp(1) by simp
    moreover have "list_all (is_hunk hunkfun h) (hunks hunkfun h ns)"
      using rec hs seg by simp
    ultimately show ?thesis by blast
  qed
qed

lemma print_script_loop_None: "print_script_loop hunkfun printfun None s = Some s"
  by (subst print_script_loop.simps) simp

lemma print_script_loop_Some:
  "print_script_loop hunkfun printfun (Some this) s =
     (case hunkfun (heap s) (Some this) of
        None \<Rightarrow> None
      | Some endp \<Rightarrow>
          (case heap s endp of
             None \<Rightarrow> None
           | Some e \<Rightarrow>
               (let nxt' = link e;
                    h1 = (heap s)(endp \<mapsto> e\<lparr>link := None\<rparr>);
                    r = printfun this (h1, out s)
                in case fst r endp of
                     None \<Rightarrow> None
                   | Some e2 \<Rightarrow>
                       print_script_loop hunkfun printfun nxt'
                         \<lparr>heap = (fst r)(endp \<mapsto> e2\<lparr>link := nxt'\<rparr>), out = snd r,
                          calls = calls s @ [(this, h1)]\<rparr>)))"
  by (subst print_script_loop.simps) simp

text \<open>
  C9.  For a chain of changes \<open>ns\<close>, a \<open>hunkfun\<close> that returns a change of the rest of
  the chain and a \<open>printfun\<close> that leaves the heap as it is, \<^verbatim>\<open>print_script\<close> returns,
  and:
  \<^item> it has called \<open>printfun\<close> once for every hunk of \<open>hunks hunkfun h ns\<close>, in order,
    with the first change of the hunk, and the heap of that call was the starting
    heap with a null link in the last change of the hunk (\<open>calls\<close> and \<open>out\<close> are
    exactly that);
  \<^item> the hunks together are the whole chain, and in the heap given to \<open>printfun\<close> the
    links from the first change of a hunk visit that hunk and end in a null link;
  \<^item> the heap it leaves is the heap it started from: every link is what it was and
    the chain is still reachable from the head.
\<close>

theorem print_script_restores_links:
  assumes "chain h script ns" and "ends_in_tail hunkfun h ns" and "reads_only printfun"
  shows "print_script script hunkfun printfun \<lparr>heap = h, out = w, calls = []\<rparr> =
           Some \<lparr>heap = h,
                 out = apply_calls printfun w (map (hunk_call h) (hunks hunkfun h ns)),
                 calls = map (hunk_call h) (hunks hunkfun h ns)\<rparr> \<and>
         concat (hunks hunkfun h ns) = ns \<and>
         list_all (is_hunk hunkfun h) (hunks hunkfun h ns) \<and>
         chain h script ns"
proof -
  have "\<exists>front. ns = front @ ns"
    by (intro exI [of _ "[]"]) simp
  then show ?thesis
    using print_script_loop_restores [OF assms(3) assms(1) assms(2), of w "[]"] assms(1)
    by (simp add: print_script_def)
qed

theorem print_script_restores_links_witness:
  "chain heap_example (Some 1) [1, 2, 3] \<and>
   print_script (Some 1) find_change show_hunk \<lparr>heap = heap_example, out = [], calls = []\<rparr> =
     Some \<lparr>heap = heap_example, out = [[1], [2], [3]],
           calls = [(1, cut_link heap_example 1), (2, cut_link heap_example 2), (3, cut_link heap_example 3)]\<rparr> \<and>
   print_script (Some 1) pair_hunk show_hunk \<lparr>heap = heap_example, out = [], calls = []\<rparr> =
     Some \<lparr>heap = heap_example, out = [[1, 2], [3]],
           calls = [(1, cut_link heap_example 2), (3, cut_link heap_example 3)]\<rparr> \<and>
   map_option link (heap_example 2) = Some (Some 3) \<and>
   map_option link (cut_link heap_example 2 2) = Some None \<and>
   reach heap_example 8 (Some 1) = [1, 2, 3]"
proof -
  have c: "chain heap_example (Some 1) [1, 2, 3]"
    by (simp add: heap_example_def node_def)
  have e1: "ends_in_tail find_change heap_example [1, 2, 3]"
    by (simp add: ends_in_tail_def find_change_def)
  have e2: "ends_in_tail pair_hunk heap_example [1, 2, 3]"
    by (auto simp: ends_in_tail_def pair_hunk_def heap_example_def node_def Cons_eq_append_conv)
  have r: "reads_only show_hunk"
    by (simp add: reads_only_def show_hunk_def)
  have h1: "hunks find_change heap_example [1, 2, 3] = [[1], [2], [3]]"
    by (simp add: hunks_Cons hunks_Nil find_change_def)
  have h2: "hunks pair_hunk heap_example [1, 2, 3] = [[1, 2], [3]]"
    by (simp add: hunks_Cons hunks_Nil pair_hunk_def heap_example_def node_def)
  have o1: "apply_calls show_hunk [] (map (hunk_call heap_example) [[1], [2], [3]]) =
      [[1], [2], [3]]"
    by (simp add: apply_calls_def show_hunk_def hunk_call_def cut_link_def heap_example_def node_def
        eval_nat_numeral)
  have o2: "apply_calls show_hunk [] (map (hunk_call heap_example) [[1, 2], [3]]) =
      [[1, 2], [3]]"
    by (simp add: apply_calls_def show_hunk_def hunk_call_def cut_link_def heap_example_def node_def
        eval_nat_numeral)
  have l: "map_option link (heap_example 2) = Some (Some 3) \<and>
      map_option link (cut_link heap_example 2 2) = Some None \<and>
      reach heap_example 8 (Some 1) = [1, 2, 3]"
    by (simp add: cut_link_def heap_example_def node_def eval_nat_numeral)
  have p1: "print_script (Some 1) find_change show_hunk
        \<lparr>heap = heap_example, out = [], calls = []\<rparr> =
      Some \<lparr>heap = heap_example, out = [[1], [2], [3]],
            calls = [(1, cut_link heap_example 1), (2, cut_link heap_example 2), (3, cut_link heap_example 3)]\<rparr>"
    using print_script_restores_links [OF c e1 r, of "[]"] h1 o1 by (simp add: hunk_call_def)
  have p2: "print_script (Some 1) pair_hunk show_hunk
        \<lparr>heap = heap_example, out = [], calls = []\<rparr> =
      Some \<lparr>heap = heap_example, out = [[1, 2], [3]],
            calls = [(1, cut_link heap_example 2), (3, cut_link heap_example 3)]\<rparr>"
    using print_script_restores_links [OF c e2 r, of "[]"] h2 o2 by (simp add: hunk_call_def)
  show ?thesis
    using c p1 p2 l by simp
qed

end
